theory Spec2Isabelle
  imports Complex_Main
begin

section \<open>The canvas bitmap and its drawing context\<close>

text \<open>
  The program (\<^verbatim>\<open>static/js/prescription.js\<close>, class \<^verbatim>\<open>PrescriptionCanvas\<close>) draws
  onto two HTML canvases through their 2D contexts. The canvas itself belongs to the
  browser, so this section fixes what the program's calls do to a bitmap.

  A bitmap is the row-major sequence of the canvas's pixels. A pixel is the colour
  premultiplied by its coverage, and the coverage: \<open>(0, 0, 0, 0)\<close> is a transparent
  pixel, \<open>(1, 1, 1, 1)\<close> opaque white. Channel values are exact rationals; the decimal
  literals of the source (\<^verbatim>\<open>0.8\<close>, \<^verbatim>\<open>0.3\<close>, \<^verbatim>\<open>1.5\<close>) stand for their decimal values.
  A canvas keeps 8 bits for each channel and rounds what it composes. The properties
  below do not rest on the difference: the sessions evaluated below compose opaque and
  transparent pixels at opacity 1, where nothing is rounded, and the general properties
  compare a canvas with an opaque snapshot of itself drawn back at opacity 1, which
  gives the snapshot in either arithmetic. No property below states the value of a
  pixel composed at opacity 0.8 or 0.3.

  A bitmap carries no width. The images that the properties below draw are snapshots of
  the canvas they are drawn onto, so image and canvas have the same width and height and
  the rectangle that \<^verbatim>\<open>drawImage\<close> covers is the whole list; the sessions evaluated below
  use canvases of one pixel.
\<close>

type_synonym pixel = "rat \<times> rat \<times> rat \<times> rat"
type_synonym bitmap = "pixel list"
type_synonym colour = "rat \<times> rat \<times> rat"

definition transparent :: pixel where
  "transparent = (0, 0, 0, 0)"

definition white :: colour where
  "white = (1, 1, 1)"

definition black :: colour where
  "black = (0, 0, 0)"

definition solid :: "colour \<Rightarrow> pixel" where
  "solid c = (case c of (r, g, b) \<Rightarrow> (r, g, b, 1))"

definition alpha :: "pixel \<Rightarrow> rat" where
  "alpha p = (case p of (r, g, b, a) \<Rightarrow> a)"

definition scale :: "rat \<Rightarrow> pixel \<Rightarrow> pixel" where
  "scale k p = (case p of (r, g, b, a) \<Rightarrow> (k * r, k * g, k * b, k * a))"

definition plus_pixel :: "pixel \<Rightarrow> pixel \<Rightarrow> pixel" where
  "plus_pixel p q =
     (case p of (r, g, b, a) \<Rightarrow> case q of (r', g', b', a') \<Rightarrow> (r + r', g + g', b + b', a + a'))"

text \<open>
  The two values of \<^verbatim>\<open>globalCompositeOperation\<close> that the program assigns:
  \<^verbatim>\<open>'source-over'\<close> and \<^verbatim>\<open>'destination-out'\<close>.
\<close>

datatype composite_op = source_over | destination_out

record context2d =
  globalCompositeOperation :: composite_op
  globalAlpha :: rat
  strokeStyle :: colour
  fillStyle :: colour
  lineWidth :: rat
  lineCap :: string
  lineJoin :: string

text \<open>The context of a canvas that nothing has been assigned to yet.\<close>

definition getContext :: context2d where
  "getContext = \<lparr>globalCompositeOperation = source_over, globalAlpha = 1,
     strokeStyle = black, fillStyle = black, lineWidth = 1,
     lineCap = ''butt'', lineJoin = ''miter''\<rparr>"

text \<open>
  Every drawing call of a context (\<^verbatim>\<open>fillRect\<close>, \<^verbatim>\<open>stroke\<close>, \<^verbatim>\<open>drawImage\<close>,
  \<^verbatim>\<open>fillText\<close>) composes a source pixel with the pixel already there: the source is
  first weighted by \<^verbatim>\<open>globalAlpha\<close>, then combined by the composite operation
  (source-over lays the source on top, destination-out removes the destination where
  the source covers it).
\<close>

definition paint :: "context2d \<Rightarrow> pixel \<Rightarrow> pixel \<Rightarrow> pixel" where
  "paint c src dst =
     (let s = scale (globalAlpha c) src in
      case globalCompositeOperation c of
        source_over \<Rightarrow> plus_pixel s (scale (1 - alpha s) dst)
      | destination_out \<Rightarrow> scale (1 - alpha s) dst)"

text \<open>
  \<^verbatim>\<open>ctx.fillRect(0, 0, canvas.width, canvas.height)\<close>: the whole canvas is painted with
  the fill style.
\<close>

definition fillRect :: "context2d \<Rightarrow> bitmap \<Rightarrow> bitmap" where
  "fillRect c bm = map (paint c (solid (fillStyle c))) bm"

text \<open>
  \<^verbatim>\<open>ctx.drawImage(img, 0, 0)\<close>, and likewise \<^verbatim>\<open>ctx.stroke()\<close> and \<^verbatim>\<open>ctx.fillText\<close>
  with the rasterised shape as the source: the source is painted pixel by pixel from the
  origin; where the source ends the canvas keeps its content, and what lies beyond the
  canvas is clipped. For a source as wide as the canvas this is the rectangle that the
  call covers; a source of another width is not represented.
\<close>

fun drawImage :: "context2d \<Rightarrow> bitmap \<Rightarrow> bitmap \<Rightarrow> bitmap" where
  "drawImage c (p # ps) (d # ds) = paint c p d # drawImage c ps ds"
| "drawImage c [] ds = ds"
| "drawImage c ps [] = []"

text \<open>
  The values kept in \<^verbatim>\<open>this.history\<close> and \<^verbatim>\<open>this.pages\<close>: the data URL of a bitmap
  (\<^verbatim>\<open>canvas.toDataURL()\<close>, taken as lossless), any other string (\<^verbatim>\<open>''\<close> for a page
  that has no content yet), or \<^verbatim>\<open>undefined\<close>, which reading a JavaScript array outside
  its bounds returns.
\<close>

datatype dataURL = Undefined | Text string | Png bitmap

definition toDataURL :: "bitmap \<Rightarrow> dataURL" where
  "toDataURL bm = Png bm"

text \<open>
  An \<^verbatim>\<open>Image\<close> whose \<^verbatim>\<open>src\<close> is the data URL of a bitmap loads and fires \<^verbatim>\<open>onload\<close>;
  for any other value the load fails and \<^verbatim>\<open>onload\<close> is never called.
\<close>

definition decode :: "dataURL \<Rightarrow> bitmap option" where
  "decode u = (case u of Png bm \<Rightarrow> Some bm | Text t \<Rightarrow> None | Undefined \<Rightarrow> None)"

text \<open>JavaScript's truth value of such a value: \<^verbatim>\<open>undefined\<close> and \<^verbatim>\<open>''\<close> are false.\<close>

definition truthy :: "dataURL \<Rightarrow> bool" where
  "truthy u = (case u of Undefined \<Rightarrow> False | Text t \<Rightarrow> t \<noteq> [] | Png bm \<Rightarrow> True)"

subsection \<open>JavaScript arrays\<close>

text \<open>\<^verbatim>\<open>xs[i]\<close>: \<^verbatim>\<open>undefined\<close> outside the bounds.\<close>

definition js_index :: "dataURL list \<Rightarrow> int \<Rightarrow> dataURL" where
  "js_index xs i = (if 0 \<le> i \<and> i < int (length xs) then xs ! nat i else Undefined)"

text \<open>\<^verbatim>\<open>xs[i] = v\<close>: an index past the end extends the array, leaving holes between.\<close>

definition js_assign :: "dataURL list \<Rightarrow> nat \<Rightarrow> dataURL \<Rightarrow> dataURL list" where
  "js_assign xs i v =
     (if i < length xs then xs[i := v]
      else xs @ replicate (i - length xs) Undefined @ [v])"

text \<open>\<^verbatim>\<open>xs.splice(i, 1)\<close>: removes the element at \<open>i\<close>, nothing when \<open>i\<close> is past the end.\<close>

definition splice1 :: "'a list \<Rightarrow> nat \<Rightarrow> 'a list" where
  "splice1 xs i = take i xs @ drop (Suc i) xs"

text \<open>\<^verbatim>\<open>xs.shift()\<close>: removes the first element.\<close>

definition shift :: "'a list \<Rightarrow> 'a list" where
  "shift xs = (case xs of [] \<Rightarrow> [] | x # rest \<Rightarrow> rest)"

section \<open>The state of a PrescriptionCanvas\<close>

datatype tool = pen | brush | highlighter | eraser

text \<open>
  The messages passed to \<^verbatim>\<open>showNotification\<close>, one constructor for each message text of
  the source; a page number is the argument where the text contains one.
\<close>

datatype notification =
    Undone | Nothing_to_undo
  | Redone | Nothing_to_redo
  | Page_added nat | Page_deleted nat | Cannot_delete_the_last_page
  | Already_on_first_page | Already_on_last_page
  | Canvas_cleared | Signature_cleared
  | Signature_saved | Error_saving_signature
  | Tool_selected tool
  | Prescription_loaded_successfully | Error_loading_prescription_file
  | Text_added | Stamp_added

text \<open>
  An image whose \<^verbatim>\<open>src\<close> has been assigned and whose \<^verbatim>\<open>onload\<close> has not run yet: one
  created by \<^verbatim>\<open>loadCanvasState\<close>, or one created for the signature canvas by
  \<^verbatim>\<open>loadSavedSignature\<close> and \<^verbatim>\<open>loadPrescription\<close>.
\<close>

datatype image_load = CanvasState dataURL | SignatureImage dataURL

text \<open>
  How a session ends in the model other than by running out of events: \<open>RangeError\<close>
  is the exception that assigning a negative number to \<^verbatim>\<open>history.length\<close> throws;
  \<open>PagesNotAnArray\<close> marks the import of a file whose \<^verbatim>\<open>pages\<close> member is a
  true value that is no array (a number, \<^verbatim>\<open>true\<close>, a string, an object). The code
  assigns such a value to \<^verbatim>\<open>this.pages\<close> and reports success; the state of the model
  keeps the pages as a list and has no value for it, so the model follows the session
  no further and no property below speaks about what comes after such an import.
\<close>

datatype stopped = RangeError | PagesNotAnArray

text \<open>
  The fields of the class, followed by two that record its effects on the page: the
  image loads in flight and the notifications shown so far, latest first.
\<close>

record prescription_canvas =
  canvas :: bitmap
  ctx :: context2d
  signatureCanvas :: bitmap
  signatureCtx :: context2d
  isDrawing :: bool
  currentTool :: tool
  currentColor :: colour
  currentSize :: "int option"
  pages :: "dataURL list"
  currentPageIndex :: nat
  history :: "dataURL list"
  historyStep :: int
  savedSignature :: "dataURL option"
  loading :: "image_load list"
  notifications :: "notification list"

definition showNotification :: "notification \<Rightarrow> prescription_canvas \<Rightarrow> prescription_canvas" where
  "showNotification msg s = s\<lparr>notifications := msg # notifications s\<rparr>"

section \<open>The history stack\<close>

text \<open>
  \<^verbatim>\<open>saveState\<close>. Assigning a negative number to \<^verbatim>\<open>history.length\<close> throws a RangeError.
\<close>

definition saveState :: "prescription_canvas \<Rightarrow> stopped + prescription_canvas" where
  "saveState s =
     (let step = historyStep s + 1 in
      if step < int (length (history s)) \<and> step < 0 then Inl RangeError
      else
        let kept = (if step < int (length (history s)) then take (nat step) (history s)
                    else history s);
            h = kept @ [toDataURL (canvas s)];
            ps = js_assign (pages s) (currentPageIndex s) (toDataURL (canvas s))
        in if length h > 50
           then Inr (s\<lparr>historyStep := step - 1, history := shift h, pages := ps\<rparr>)
           else Inr (s\<lparr>historyStep := step, history := h, pages := ps\<rparr>))"

text \<open>\<^verbatim>\<open>loadCanvasState\<close> creates the image and assigns its source; the rest happens in
  \<^verbatim>\<open>onload\<close>.\<close>

definition loadCanvasState :: "dataURL \<Rightarrow> prescription_canvas \<Rightarrow> prescription_canvas" where
  "loadCanvasState u s = s\<lparr>loading := loading s @ [CanvasState u]\<rparr>"

text \<open>
  The \<^verbatim>\<open>onload\<close> handlers. The one of \<^verbatim>\<open>loadCanvasState\<close> fills the canvas white, draws
  the image and stores the data URL in the slot of the page that is current when the
  handler runs; the one for the signature does the same on the signature canvas and
  stores nothing.
\<close>

definition onload :: "image_load \<Rightarrow> prescription_canvas \<Rightarrow> prescription_canvas" where
  "onload l s =
     (case l of
        CanvasState u \<Rightarrow>
          (case decode u of
             None \<Rightarrow> s
           | Some img \<Rightarrow>
               let c = (ctx s)\<lparr>fillStyle := white\<rparr> in
               s\<lparr>ctx := c, canvas := drawImage c img (fillRect c (canvas s)),
                 pages := js_assign (pages s) (currentPageIndex s) u\<rparr>)
      | SignatureImage u \<Rightarrow>
          (case decode u of
             None \<Rightarrow> s
           | Some img \<Rightarrow>
               let c = (signatureCtx s)\<lparr>fillStyle := white\<rparr> in
               s\<lparr>signatureCtx := c,
                 signatureCanvas := drawImage c img (fillRect c (signatureCanvas s))\<rparr>))"

text \<open>The \<open>k\<close>-th image in flight finishes loading.\<close>

definition imageLoaded :: "nat \<Rightarrow> prescription_canvas \<Rightarrow> prescription_canvas" where
  "imageLoaded k s =
     (if k < length (loading s)
      then onload (loading s ! k) (s\<lparr>loading := splice1 (loading s) k\<rparr>)
      else s)"

text \<open>All images in flight finish loading, in the order in which they were requested.\<close>

definition settle :: "prescription_canvas \<Rightarrow> prescription_canvas" where
  "settle s = fold onload (loading s) (s\<lparr>loading := []\<rparr>)"

definition undoLast :: "prescription_canvas \<Rightarrow> prescription_canvas" where
  "undoLast s =
     (if historyStep s > 0
      then let s1 = s\<lparr>historyStep := historyStep s - 1\<rparr> in
           showNotification Undone
             (loadCanvasState (js_index (history s1) (historyStep s1)) s1)
      else showNotification Nothing_to_undo s)"

definition redoLast :: "prescription_canvas \<Rightarrow> prescription_canvas" where
  "redoLast s =
     (if historyStep s < int (length (history s)) - 1
      then let s1 = s\<lparr>historyStep := historyStep s + 1\<rparr> in
           showNotification Redone
             (loadCanvasState (js_index (history s1) (historyStep s1)) s1)
      else showNotification Nothing_to_redo s)"

section \<open>Drawing\<close>

text \<open>
  \<^verbatim>\<open>context.lineWidth = w\<close>: a context takes a width only if it is a number above 0;
  for 0, a negative number and \<^verbatim>\<open>NaN\<close> (here \<open>None\<close>) it keeps the width it has.
\<close>

definition set_lineWidth :: "rat option \<Rightarrow> context2d \<Rightarrow> context2d" where
  "set_lineWidth w c =
     (case w of
        None \<Rightarrow> c
      | Some x \<Rightarrow> if 0 < x then c\<lparr>lineWidth := x\<rparr> else c)"

text \<open>
  \<^verbatim>\<open>setDrawingProperties(context)\<close>: the tool table. The eraser leaves the stroke style as
  it is. \<^verbatim>\<open>currentSize\<close> is what \<^verbatim>\<open>parseInt\<close> reads from the size slider: an integer,
  or \<^verbatim>\<open>NaN\<close> (here \<open>None\<close>), and so are its products. The products are taken
  exactly; those of the code are binary64 numbers, which are the same for sizes up to
  \<open>2 ^ 51\<close>.
\<close>

definition setDrawingProperties :: "prescription_canvas \<Rightarrow> context2d \<Rightarrow> context2d" where
  "setDrawingProperties s c =
     (let c1 = (case currentTool s of
          pen \<Rightarrow>
            set_lineWidth (map_option (\<lambda>size. of_int size) (currentSize s))
              (c\<lparr>globalCompositeOperation := source_over, globalAlpha := 1,
                 strokeStyle := currentColor s\<rparr>)
        | brush \<Rightarrow>
            set_lineWidth (map_option (\<lambda>size. of_int size * (15 / 10)) (currentSize s))
              (c\<lparr>globalCompositeOperation := source_over, globalAlpha := 8 / 10,
                 strokeStyle := currentColor s\<rparr>)
        | highlighter \<Rightarrow>
            set_lineWidth (map_option (\<lambda>size. of_int size * 3) (currentSize s))
              (c\<lparr>globalCompositeOperation := source_over, globalAlpha := 3 / 10,
                 strokeStyle := currentColor s\<rparr>)
        | eraser \<Rightarrow>
            set_lineWidth (map_option (\<lambda>size. of_int size * 2) (currentSize s))
              (c\<lparr>globalCompositeOperation := destination_out, globalAlpha := 1\<rparr>))
      in c1\<lparr>lineCap := ''round'', lineJoin := ''round''\<rparr>)"

text \<open>
  \<^verbatim>\<open>startDrawing(e, context, isSignature)\<close>: the listeners of \<^verbatim>\<open>setupCanvasEvents\<close> pass
  the signature context exactly when \<^verbatim>\<open>isSignature\<close> is true. The path that
  \<^verbatim>\<open>beginPath\<close> and \<^verbatim>\<open>moveTo\<close> start is not kept in the state: each later \<^verbatim>\<open>draw\<close>
  receives what the browser rasterises for the path so far.
\<close>

definition startDrawing :: "bool \<Rightarrow> prescription_canvas \<Rightarrow> prescription_canvas" where
  "startDrawing isSignature s =
     (let s1 = s\<lparr>isDrawing := True\<rparr> in
      if isSignature then s1\<lparr>signatureCtx := setDrawingProperties s1 (signatureCtx s1)\<rparr>
      else s1\<lparr>ctx := setDrawingProperties s1 (ctx s1)\<rparr>)"

text \<open>
  \<^verbatim>\<open>draw(e, context, isSignature)\<close>: \<^verbatim>\<open>lineTo\<close> and \<^verbatim>\<open>stroke\<close>. The argument \<open>path\<close>
  is the path in the stroke style as the browser rasterises it; the model leaves it
  free.
\<close>

definition draw :: "bool \<Rightarrow> bitmap \<Rightarrow> prescription_canvas \<Rightarrow> prescription_canvas" where
  "draw isSignature path s =
     (if \<not> isDrawing s then s
      else if isSignature
        then s\<lparr>signatureCanvas := drawImage (signatureCtx s) path (signatureCanvas s)\<rparr>
        else s\<lparr>canvas := drawImage (ctx s) path (canvas s)\<rparr>)"

definition stopDrawing :: "bool \<Rightarrow> prescription_canvas \<Rightarrow> stopped + prescription_canvas" where
  "stopDrawing isSignature s =
     (if isDrawing s
      then let s1 = s\<lparr>isDrawing := False\<rparr> in
           if \<not> isSignature then saveState s1 else Inr s1
      else Inr s)"

text \<open>What follows a call of \<^verbatim>\<open>saveState\<close> in a method runs only if it did not throw.\<close>

definition and_then ::
  "stopped + prescription_canvas \<Rightarrow> (prescription_canvas \<Rightarrow> prescription_canvas)
     \<Rightarrow> stopped + prescription_canvas" where
  "and_then r f = (case r of Inl e \<Rightarrow> Inl e | Inr s \<Rightarrow> Inr (f s))"

definition setTool :: "tool \<Rightarrow> prescription_canvas \<Rightarrow> prescription_canvas" where
  "setTool t s =
     (let s1 = s\<lparr>currentTool := t\<rparr> in
      showNotification (Tool_selected t) (s1\<lparr>ctx := setDrawingProperties s1 (ctx s1)\<rparr>))"

definition setColor :: "colour \<Rightarrow> prescription_canvas \<Rightarrow> prescription_canvas" where
  "setColor c s = s\<lparr>currentColor := c\<rparr>"

text \<open>\<^verbatim>\<open>setSize(size)\<close>: \<open>n\<close> is \<^verbatim>\<open>parseInt(size)\<close>, \<open>None\<close> for \<^verbatim>\<open>NaN\<close>.\<close>

definition setSize :: "int option \<Rightarrow> prescription_canvas \<Rightarrow> prescription_canvas" where
  "setSize n s = s\<lparr>currentSize := n\<rparr>"

definition clearCanvas :: "prescription_canvas \<Rightarrow> stopped + prescription_canvas" where
  "clearCanvas s =
     (let c = (ctx s)\<lparr>fillStyle := white\<rparr> in
      and_then (saveState (s\<lparr>ctx := c, canvas := fillRect c (canvas s)\<rparr>))
        (showNotification Canvas_cleared))"

definition clearSignature :: "prescription_canvas \<Rightarrow> prescription_canvas" where
  "clearSignature s =
     (let c = (signatureCtx s)\<lparr>fillStyle := white\<rparr> in
      showNotification Signature_cleared
        (s\<lparr>signatureCtx := c, signatureCanvas := fillRect c (signatureCanvas s)\<rparr>))"

text \<open>
  \<^verbatim>\<open>addText\<close>: \<open>None\<close> when the prompt is cancelled or left empty, otherwise the
  text as the browser rasterises it in the fill style.
\<close>

definition addText :: "bitmap option \<Rightarrow> prescription_canvas \<Rightarrow> stopped + prescription_canvas" where
  "addText text s =
     (case text of
        None \<Rightarrow> Inr s
      | Some glyphs \<Rightarrow>
          let c = (ctx s)\<lparr>fillStyle := currentColor s\<rparr> in
          and_then (saveState (s\<lparr>ctx := c, canvas := drawImage c glyphs (canvas s)\<rparr>))
            (showNotification Text_added))"

text \<open>\<^verbatim>\<open>addStamp\<close>: the circle is stroked, then the word is filled.\<close>

definition addStamp :: "bitmap \<Rightarrow> bitmap \<Rightarrow> prescription_canvas \<Rightarrow> stopped + prescription_canvas" where
  "addStamp circle word s =
     (let c1 = (ctx s)\<lparr>strokeStyle := currentColor s, lineWidth := 3\<rparr>;
          bm1 = drawImage c1 circle (canvas s);
          c2 = c1\<lparr>fillStyle := currentColor s\<rparr>;
          bm2 = drawImage c2 word bm1
      in and_then (saveState (s\<lparr>ctx := c2, canvas := bm2\<rparr>)) (showNotification Stamp_added))"

section \<open>The page collection\<close>

definition addPage :: "prescription_canvas \<Rightarrow> stopped + prescription_canvas" where
  "addPage s =
     (let ps = pages s @ [Text ''''];
          c = (ctx s)\<lparr>fillStyle := white\<rparr>;
          s1 = s\<lparr>pages := ps, currentPageIndex := length ps - 1, ctx := c,
                canvas := fillRect c (canvas s)\<rparr>
      in and_then (saveState s1) (\<lambda>s2. showNotification (Page_added (currentPageIndex s2 + 1)) s2))"

definition loadPage :: "nat \<Rightarrow> prescription_canvas \<Rightarrow> prescription_canvas" where
  "loadPage pageIndex s =
     (if truthy (js_index (pages s) (int pageIndex))
           \<and> js_index (pages s) (int pageIndex) \<noteq> Text ''''
      then loadCanvasState (js_index (pages s) (int pageIndex)) s
      else let c = (ctx s)\<lparr>fillStyle := white\<rparr>;
               bm = fillRect c (canvas s)
           in s\<lparr>ctx := c, canvas := bm, pages := js_assign (pages s) pageIndex (toDataURL bm)\<rparr>)"

definition deletePage :: "prescription_canvas \<Rightarrow> prescription_canvas" where
  "deletePage s =
     (if length (pages s) > 1
      then let pageNum = currentPageIndex s + 1;
               ps = splice1 (pages s) (currentPageIndex s);
               i = (if currentPageIndex s \<ge> length ps then length ps - 1
                    else currentPageIndex s)
           in showNotification (Page_deleted pageNum)
                (loadPage i (s\<lparr>pages := ps, currentPageIndex := i\<rparr>))
      else showNotification Cannot_delete_the_last_page s)"

definition previousPage :: "prescription_canvas \<Rightarrow> prescription_canvas" where
  "previousPage s =
     (if currentPageIndex s > 0
      then let s1 = s\<lparr>pages := js_assign (pages s) (currentPageIndex s) (toDataURL (canvas s)),
                     currentPageIndex := currentPageIndex s - 1\<rparr>
           in loadPage (currentPageIndex s1) s1
      else showNotification Already_on_first_page s)"

definition nextPage :: "prescription_canvas \<Rightarrow> prescription_canvas" where
  "nextPage s =
     (if int (currentPageIndex s) < int (length (pages s)) - 1
      then let s1 = s\<lparr>pages := js_assign (pages s) (currentPageIndex s) (toDataURL (canvas s)),
                     currentPageIndex := currentPageIndex s + 1\<rparr>
           in loadPage (currentPageIndex s1) s1
      else showNotification Already_on_last_page s)"

section \<open>Signature and import\<close>

text \<open>
  \<^verbatim>\<open>saveSignature\<close>: \<open>stored\<close> tells whether \<^verbatim>\<open>localStorage.setItem\<close> returned
  without throwing.
\<close>

definition saveSignature :: "bool \<Rightarrow> prescription_canvas \<Rightarrow> prescription_canvas" where
  "saveSignature stored s =
     showNotification (if stored then Signature_saved else Error_saving_signature)
       (s\<lparr>savedSignature := Some (toDataURL (signatureCanvas s))\<rparr>)"

text \<open>
  \<^verbatim>\<open>loadSavedSignature\<close>: \<open>saved\<close> is what \<^verbatim>\<open>localStorage.getItem\<close> returns,
  \<open>None\<close> for \<^verbatim>\<open>null\<close>.
\<close>

definition loadSavedSignature :: "dataURL option \<Rightarrow> prescription_canvas \<Rightarrow> prescription_canvas" where
  "loadSavedSignature saved s =
     (case saved of
        None \<Rightarrow> s
      | Some u \<Rightarrow>
          if truthy u
          then s\<lparr>loading := loading s @ [SignatureImage u], savedSignature := Some u\<rparr>
          else s)"

text \<open>
  The JSON values that the \<^verbatim>\<open>pages\<close> member of an imported file can be. The elements
  of an array are the page images as the export writes them, strings, or \<^verbatim>\<open>null\<close>
  (here \<open>Undefined\<close>, which is as false); an element of another kind acts in
  \<^verbatim>\<open>loadPage\<close> as \<^verbatim>\<open>null\<close> does when it is false and as a string that is no image
  when it is true. What an object holds plays no part.
\<close>

datatype json =
    JNull
  | JBool bool
  | JNumber rat
  | JString string
  | JObject
  | JArray "dataURL list"

text \<open>JavaScript's truth value of a JSON value.\<close>

fun json_truthy :: "json \<Rightarrow> bool" where
  "json_truthy JNull = False"
| "json_truthy (JBool b) = b"
| "json_truthy (JNumber x) = (x \<noteq> 0)"
| "json_truthy (JString t) = (t \<noteq> [])"
| "json_truthy JObject = True"
| "json_truthy (JArray ps) = True"

text \<open>
  \<^verbatim>\<open>data.pages || []\<close>, for a member that is absent (\<open>None\<close>) or has a value: the
  value itself if it is true, the empty array otherwise. The result is \<open>None\<close> when it
  is no array.
\<close>

fun pages_or_empty :: "json option \<Rightarrow> dataURL list option" where
  "pages_or_empty None = Some []"
| "pages_or_empty (Some (JArray ps)) = Some ps"
| "pages_or_empty (Some v) = (if json_truthy v then None else Some [])"

text \<open>
  What \<^verbatim>\<open>JSON.parse\<close> makes of the text of an imported file: \<open>Malformed\<close> when the
  \<^verbatim>\<open>try\<close> block throws, otherwise the \<^verbatim>\<open>pages\<close> and \<^verbatim>\<open>signature\<close> members of the
  object, \<open>None\<close> for a member that is absent. The signature is a string or
  \<^verbatim>\<open>null\<close>. The form fields of the page, which the method also fills in, are not part
  of the state.
\<close>

datatype prescription_file =
    Malformed
  | Document (file_pages: "json option") (file_signature: "dataURL option")

text \<open>\<^verbatim>\<open>loadPrescription\<close>, from the moment the file reader has read the file.\<close>

definition loadPrescription ::
  "prescription_file \<Rightarrow> prescription_canvas \<Rightarrow> stopped + prescription_canvas" where
  "loadPrescription file s =
     (case file of
        Malformed \<Rightarrow> Inr (showNotification Error_loading_prescription_file s)
      | Document data_pages data_signature \<Rightarrow>
          (case pages_or_empty data_pages of
             None \<Rightarrow> Inl PagesNotAnArray
           | Some ps \<Rightarrow>
               let s1 = s\<lparr>pages := ps, currentPageIndex := 0\<rparr>;
                   s2 = (if length (pages s1) > 0 then loadPage 0 s1 else s1);
                   s3 = (case data_signature of
                           None \<Rightarrow> s2
                         | Some u \<Rightarrow>
                             if truthy u then s2\<lparr>loading := loading s2 @ [SignatureImage u]\<rparr>
                             else s2)
               in Inr (showNotification Prescription_loaded_successfully s3)))"

section \<open>Start-up and events\<close>

definition initializeCanvas :: "prescription_canvas \<Rightarrow> stopped + prescription_canvas" where
  "initializeCanvas s =
     and_then (saveState (s\<lparr>pages := pages s @ [Text '''']\<rparr>))
       (\<lambda>s1. let c = (ctx s1)\<lparr>lineCap := ''round'', lineJoin := ''round'', fillStyle := white\<rparr>;
                 sc = (signatureCtx s1)\<lparr>lineCap := ''round'', lineJoin := ''round'',
                        fillStyle := white\<rparr>
             in s1\<lparr>ctx := c, signatureCtx := sc, canvas := fillRect c (canvas s1),
                   signatureCanvas := fillRect sc (signatureCanvas s1)\<rparr>)"

text \<open>
  The constructor, for a prescription canvas of \<open>n\<close> pixels, a signature canvas of
  \<open>m\<close> pixels and the signature \<open>saved\<close> in local storage. A new canvas is
  transparent.
\<close>

definition new_PrescriptionCanvas ::
  "nat \<Rightarrow> nat \<Rightarrow> dataURL option \<Rightarrow> stopped + prescription_canvas" where
  "new_PrescriptionCanvas n m saved =
     and_then
       (initializeCanvas
          \<lparr>canvas = replicate n transparent, ctx = getContext,
           signatureCanvas = replicate m transparent, signatureCtx = getContext,
           isDrawing = False, currentTool = pen, currentColor = black, currentSize = Some 2,
           pages = [], currentPageIndex = 0, history = [], historyStep = - 1,
           savedSignature = None, loading = [], notifications = []\<rparr>)
       (loadSavedSignature saved)"

text \<open>
  What can happen to the object afterwards: the mouse events of the two canvases (touch
  events are forwarded as mouse events, \<^verbatim>\<open>mouseout\<close> does what \<^verbatim>\<open>mouseup\<close> does), the
  methods that buttons and keyboard shortcuts call, and the completion of an image load.
  Saving, printing, exporting and zooming read the state and do not change it.
\<close>

datatype event =
    MouseDown bool
  | MouseMove bool bitmap
  | MouseUp bool
  | SetTool tool
  | SetColor colour
  | SetSize "int option"
  | ClearCanvas
  | ClearSignature
  | UndoLast
  | RedoLast
  | AddPage
  | DeletePage
  | PreviousPage
  | NextPage
  | SaveSignature bool
  | LoadPrescription prescription_file
  | AddText "bitmap option"
  | AddStamp bitmap bitmap
  | ImageLoaded nat

fun handle :: "event \<Rightarrow> prescription_canvas \<Rightarrow> stopped + prescription_canvas" where
  "handle (MouseDown isSignature) s = Inr (startDrawing isSignature s)"
| "handle (MouseMove isSignature path) s = Inr (draw isSignature path s)"
| "handle (MouseUp isSignature) s = stopDrawing isSignature s"
| "handle (SetTool t) s = Inr (setTool t s)"
| "handle (SetColor c) s = Inr (setColor c s)"
| "handle (SetSize n) s = Inr (setSize n s)"
| "handle ClearCanvas s = clearCanvas s"
| "handle ClearSignature s = Inr (clearSignature s)"
| "handle UndoLast s = Inr (undoLast s)"
| "handle RedoLast s = Inr (redoLast s)"
| "handle AddPage s = addPage s"
| "handle DeletePage s = Inr (deletePage s)"
| "handle PreviousPage s = Inr (previousPage s)"
| "handle NextPage s = Inr (nextPage s)"
| "handle (SaveSignature stored) s = Inr (saveSignature stored s)"
| "handle (LoadPrescription file) s = loadPrescription file s"
| "handle (AddText text) s = addText text s"
| "handle (AddStamp circle word) s = addStamp circle word s"
| "handle (ImageLoaded k) s = Inr (imageLoaded k s)"

fun run :: "event list \<Rightarrow> prescription_canvas \<Rightarrow> stopped + prescription_canvas" where
  "run [] s = Inr s"
| "run (e # es) s = (case handle e s of Inl err \<Rightarrow> Inl err | Inr s1 \<Rightarrow> run es s1)"

text \<open>A session: the page is opened, then the events happen.\<close>

definition session ::
  "nat \<Rightarrow> nat \<Rightarrow> dataURL option \<Rightarrow> event list \<Rightarrow> stopped + prescription_canvas" where
  "session n m saved es =
     (case new_PrescriptionCanvas n m saved of Inl err \<Rightarrow> Inl err | Inr s \<Rightarrow> run es s)"

section \<open>Notions used in the properties\<close>

text \<open>
  What \<^verbatim>\<open>saveState\<close> makes of the history before any eviction: the entries up to the
  cursor, then the snapshot of the canvas.
\<close>

definition pushed :: "prescription_canvas \<Rightarrow> dataURL list" where
  "pushed s = take (nat (historyStep s + 1)) (history s) @ [toDataURL (canvas s)]"

text \<open>A value that loads as an image.\<close>

definition loads :: "dataURL \<Rightarrow> bool" where
  "loads u \<longleftrightarrow> decode u \<noteq> None"

text \<open>
  The cursor points into the history, the history has at most 50 entries, and every
  entry is the data URL of a bitmap.
\<close>

definition history_inv :: "prescription_canvas \<Rightarrow> bool" where
  "history_inv s \<longleftrightarrow>
     0 \<le> historyStep s \<and> historyStep s < int (length (history s)) \<and> length (history s) \<le> 50
     \<and> list_all loads (history s)"

text \<open>The page collection is not empty and the active page index points into it.\<close>

definition pages_inv :: "prescription_canvas \<Rightarrow> bool" where
  "pages_inv s \<longleftrightarrow> 1 \<le> length (pages s) \<and> currentPageIndex s < length (pages s)"

text \<open>The same, or the page collection is empty and the index is 0.\<close>

definition index_inv :: "prescription_canvas \<Rightarrow> bool" where
  "index_inv s \<longleftrightarrow>
     currentPageIndex s < length (pages s) \<or> (pages s = [] \<and> currentPageIndex s = 0)"

text \<open>
  An event that is not the import of a file whose \<^verbatim>\<open>pages\<close> member is anything but an
  array with at least one element.
\<close>

fun brings_pages :: "event \<Rightarrow> bool" where
  "brings_pages (LoadPrescription (Document (Some (JArray ps)) sg)) = (ps \<noteq> [])"
| "brings_pages (LoadPrescription (Document data_pages sg)) = False"
| "brings_pages e = True"

text \<open>An event at which the model stops: the import that leaves no array of pages.\<close>

fun stops :: "event \<Rightarrow> bool" where
  "stops (LoadPrescription (Document data_pages sg)) = (pages_or_empty data_pages = None)"
| "stops e = False"

text \<open>
  The canvas after the \<^verbatim>\<open>onload\<close> handler of \<^verbatim>\<open>loadCanvasState\<close> has run for \<open>u\<close> with
  the context \<open>c\<close>: the white fill and the image, both composed with the operation and
  the opacity that \<open>c\<close> has; unchanged when \<open>u\<close> does not load.
\<close>

definition rendered :: "context2d \<Rightarrow> dataURL \<Rightarrow> bitmap \<Rightarrow> bitmap" where
  "rendered c u bm =
     (case decode u of
        None \<Rightarrow> bm
      | Some img \<Rightarrow> drawImage (c\<lparr>fillStyle := white\<rparr>) img (fillRect (c\<lparr>fillStyle := white\<rparr>) bm))"

section \<open>Example sessions\<close>

text \<open>
  The sessions at which the properties below are instantiated, all on a prescription
  canvas and a signature canvas of one pixel each, with no signature in local storage.
  A stroke is a press, one move that paints the pixel black, and a release.
\<close>

definition stroke :: "event list" where
  "stroke = [MouseDown False, MouseMove False [solid black], MouseUp False]"

text \<open>An undo or a redo, and the image it requested finishes loading.\<close>

definition undo :: "event list" where
  "undo = [UndoLast, ImageLoaded 0]"

definition redo :: "event list" where
  "redo = [RedoLast, ImageLoaded 0]"

definition example :: "event list \<Rightarrow> prescription_canvas" where
  "example es = projr (session 1 1 None es)"

text \<open>
  The state once \<^verbatim>\<open>loadPage\<close> has run for slot \<open>i\<close> and its image has loaded: when the
  slot holds an image, the white fill and the image are composed onto the canvas by the
  context as it is; when the slot holds nothing yet (\<^verbatim>\<open>''\<close> or \<^verbatim>\<open>undefined\<close>), the
  white fill is composed onto the canvas by the context as it is and the snapshot of
  the result is stored in the slot; when the slot holds a string that does not load as
  an image, nothing changes.
\<close>

definition page_shown :: "nat \<Rightarrow> prescription_canvas \<Rightarrow> prescription_canvas" where
  "page_shown i s =
     (let c = (ctx s)\<lparr>fillStyle := white\<rparr> in
      if truthy (pages s ! i)
      then (case decode (pages s ! i) of
              None \<Rightarrow> s
            | Some img \<Rightarrow> s\<lparr>ctx := c, canvas := rendered (ctx s) (pages s ! i) (canvas s)\<rparr>)
      else s\<lparr>ctx := c, canvas := fillRect c (canvas s),
             pages := (pages s)[i := toDataURL (fillRect c (canvas s))]\<rparr>)"

text \<open>
  The tool table as the specification words it: composition, opacity and width
  multiplier of each tool. Normal composition is \<^verbatim>\<open>'source-over'\<close>, the erasing one
  \<^verbatim>\<open>'destination-out'\<close>.
\<close>

fun tool_table :: "tool \<Rightarrow> composite_op \<times> rat \<times> rat" where
  "tool_table pen = (source_over, 1, 1)"
| "tool_table brush = (source_over, 8 / 10, 15 / 10)"
| "tool_table highlighter = (source_over, 3 / 10, 3)"
| "tool_table eraser = (destination_out, 1, 2)"

text \<open>Composition, opacity and line width of a context.\<close>

definition drawing_parameters :: "context2d \<Rightarrow> composite_op \<times> rat \<times> rat" where
  "drawing_parameters c = (globalCompositeOperation c, globalAlpha c, lineWidth c)"

text \<open>
  A stroke on the prescription canvas: the press, one move for each element of \<open>paths\<close>
  (what the browser rasterises for the path at that move), and the release.
\<close>

definition stroke_events :: "bitmap list \<Rightarrow> event list" where
  "stroke_events paths = MouseDown False # map (MouseMove False) paths @ [MouseUp False]"

text \<open>An undo or a redo, followed by the arrival of the images in flight.\<close>

definition undo_settled :: "prescription_canvas \<Rightarrow> prescription_canvas" where
  "undo_settled s = settle (undoLast s)"

definition redo_settled :: "prescription_canvas \<Rightarrow> prescription_canvas" where
  "redo_settled s = settle (redoLast s)"

text \<open>A pixel laid over opaque white, and a bitmap laid over a white canvas.\<close>

definition over_white :: "pixel \<Rightarrow> pixel" where
  "over_white p = plus_pixel p (scale (1 - alpha p) (solid white))"

definition opaque :: "pixel \<Rightarrow> bool" where
  "opaque p \<longleftrightarrow> alpha p = 1"

text \<open>A context that composes source-over at full opacity, as a new context does.\<close>

definition plain :: "context2d \<Rightarrow> bool" where
  "plain c \<longleftrightarrow> globalCompositeOperation c = source_over \<and> globalAlpha c = 1"

fun is_signature_load :: "image_load \<Rightarrow> bool" where
  "is_signature_load (SignatureImage u) = True"
| "is_signature_load (CanvasState u) = False"

fun snapshot_of_size :: "nat \<Rightarrow> dataURL \<Rightarrow> bool" where
  "snapshot_of_size n (Png img) = (length img = n)"
| "snapshot_of_size n u = False"

text \<open>
  What holds while the pen draws on a canvas of \<open>n\<close> pixels: the context is plain, only
  signature images are in flight, the history is in order and holds snapshots of \<open>n\<close>
  pixels, and the canvas shows the snapshot at the cursor laid over white.
\<close>

definition pen_inv :: "nat \<Rightarrow> prescription_canvas \<Rightarrow> bool" where
  "pen_inv n s \<longleftrightarrow>
     plain (ctx s) \<and> currentTool s = pen \<and> list_all is_signature_load (loading s)
     \<and> history_inv s \<and> list_all (snapshot_of_size n) (history s)
     \<and> length (canvas s) = n
     \<and> rendered (ctx s) (js_index (history s) (historyStep s)) (replicate n transparent) = canvas s"

section \<open>Invariants of the history\<close>

lemma saveState_result:
  assumes "- 1 \<le> historyStep s" and "historyStep s < int (length (history s))"
  shows "saveState s =
     Inr (s\<lparr>historyStep := (if 49 \<le> historyStep s then historyStep s else historyStep s + 1),
            history := (if 49 \<le> historyStep s then tl (pushed s) else pushed s),
            pages := js_assign (pages s) (currentPageIndex s) (toDataURL (canvas s))\<rparr>)"
proof -
  have kept: "(if historyStep s + 1 < int (length (history s))
               then take (nat (historyStep s + 1)) (history s) else history s)
              = take (nat (historyStep s + 1)) (history s)"
    using assms by auto
  have len: "length (pushed s) = nat (historyStep s + 1) + 1"
    using assms by (auto simp add: pushed_def min_def)
  have ne: "pushed s \<noteq> []" by (simp add: pushed_def)
  have sh: "shift (pushed s) = tl (pushed s)"
    by (cases "pushed s") (simp_all add: shift_def)
  show ?thesis
  proof (cases "49 \<le> historyStep s")
    case True
    then have "50 < length (pushed s)" using len by simp
    then show ?thesis using assms True kept sh
      by (simp add: saveState_def Let_def pushed_def)
  next
    case False
    then have "\<not> 50 < length (pushed s)" using len by simp
    then show ?thesis using assms False kept
      by (simp add: saveState_def Let_def pushed_def)
  qed
qed

lemma length_pushed:
  "- 1 \<le> historyStep s \<Longrightarrow> historyStep s < int (length (history s)) \<Longrightarrow>
   length (pushed s) = nat (historyStep s + 1) + 1"
  by (auto simp add: pushed_def min_def)

lemma list_all_pushed:
  "list_all loads (history s) \<Longrightarrow> list_all loads (pushed s)"
  by (auto simp add: pushed_def list_all_iff toDataURL_def decode_def loads_def dest: in_set_takeD)

lemma list_all_tl: "list_all P xs \<Longrightarrow> list_all P (tl xs)"
  by (cases xs) simp_all

lemma history_inv_saveState:
  assumes "history_inv s"
  shows "\<exists>s'. saveState s = Inr s' \<and> history_inv s'"
proof -
  have a: "- 1 \<le> historyStep s" "historyStep s < int (length (history s))"
    using assms by (simp_all add: history_inv_def)
  note r = saveState_result [OF a]
  have len: "length (pushed s) = nat (historyStep s + 1) + 1"
    using a by (rule length_pushed)
  have all: "list_all loads (pushed s)"
    using assms by (simp add: history_inv_def list_all_pushed)
  show ?thesis
  proof (cases "49 \<le> historyStep s")
    case True
    have "historyStep s = 49" using True assms by (simp add: history_inv_def)
    then show ?thesis using r len all assms
      by (simp add: history_inv_def list_all_tl)
  next
    case False
    then show ?thesis using r len all assms
      by (simp add: history_inv_def)
  qed
qed

lemma history_inv_cong:
  "history s' = history s \<Longrightarrow> historyStep s' = historyStep s \<Longrightarrow> history_inv s' = history_inv s"
  by (simp add: history_inv_def)

lemma history_inv_and_then:
  assumes "history_inv s1" and "\<And>s2. history_inv s2 \<Longrightarrow> history_inv (f s2)"
  shows "\<exists>s'. and_then (saveState s1) f = Inr s' \<and> history_inv s'"
  using history_inv_saveState [OF assms(1)] assms(2) by (auto simp add: and_then_def)

lemma loadPage_history:
  "history (loadPage i s) = history s" "historyStep (loadPage i s) = historyStep s"
  by (simp_all add: loadPage_def loadCanvasState_def Let_def)

lemma history_inv_onload: "history_inv s \<Longrightarrow> history_inv (onload l s)"
  by (simp add: onload_def history_inv_def Let_def split: image_load.splits option.splits)

lemma history_inv_loadPage: "history_inv s \<Longrightarrow> history_inv (loadPage i s)"
  by (simp add: loadPage_def loadCanvasState_def history_inv_def Let_def)

lemma history_inv_undoLast: "history_inv s \<Longrightarrow> history_inv (undoLast s)"
  by (simp add: undoLast_def loadCanvasState_def showNotification_def history_inv_def Let_def)

lemma history_inv_redoLast: "history_inv s \<Longrightarrow> history_inv (redoLast s)"
  by (simp add: redoLast_def loadCanvasState_def showNotification_def history_inv_def Let_def)

lemma history_inv_showNotification: "history_inv (showNotification msg s) = history_inv s"
  by (simp add: showNotification_def history_inv_def)

lemma history_inv_handle:
  assumes "history_inv s" and "\<not> stops e"
  shows "\<exists>s'. handle e s = Inr s' \<and> history_inv s'"
proof (cases e)
  case (MouseDown b)
  then show ?thesis using assms by (simp add: startDrawing_def history_inv_def Let_def)
next
  case (MouseMove b path)
  then show ?thesis using assms by (simp add: draw_def history_inv_def)
next
  case (MouseUp b)
  have i: "history_inv (s\<lparr>isDrawing := False\<rparr>)" using assms by (simp add: history_inv_def)
  from history_inv_saveState [OF i] show ?thesis using assms MouseUp i
    by (simp add: stopDrawing_def Let_def)
next
  case (SetTool t)
  then show ?thesis using assms
    by (simp add: setTool_def history_inv_def showNotification_def Let_def)
next
  case (SetColor c)
  then show ?thesis using assms by (simp add: setColor_def history_inv_def)
next
  case (SetSize n)
  then show ?thesis using assms by (simp add: setSize_def history_inv_def)
next
  case ClearCanvas
  have "history_inv (s\<lparr>ctx := (ctx s)\<lparr>fillStyle := white\<rparr>,
      canvas := fillRect ((ctx s)\<lparr>fillStyle := white\<rparr>) (canvas s)\<rparr>)"
    using assms by (simp add: history_inv_def)
  from history_inv_and_then [OF this, of "showNotification Canvas_cleared"]
  show ?thesis using ClearCanvas
    by (simp add: clearCanvas_def Let_def history_inv_showNotification)
next
  case ClearSignature
  then show ?thesis using assms
    by (simp add: clearSignature_def history_inv_def showNotification_def Let_def)
next
  case UndoLast
  then show ?thesis using assms by (simp add: history_inv_undoLast)
next
  case RedoLast
  then show ?thesis using assms by (simp add: history_inv_redoLast)
next
  case AddPage
  let ?c = "(ctx s)\<lparr>fillStyle := white\<rparr>"
  let ?s1 = "s\<lparr>pages := pages s @ [Text ''''],
      currentPageIndex := length (pages s @ [Text '''']) - 1, ctx := ?c,
      canvas := fillRect ?c (canvas s)\<rparr>"
  have "history_inv ?s1" using assms by (simp add: history_inv_def)
  from history_inv_and_then [OF this,
      of "\<lambda>s2. showNotification (Page_added (currentPageIndex s2 + 1)) s2"]
  show ?thesis using AddPage
    by (simp add: addPage_def Let_def history_inv_showNotification)
next
  case DeletePage
  then show ?thesis using assms
    by (simp add: deletePage_def Let_def showNotification_def history_inv_def loadPage_history)
next
  case PreviousPage
  then show ?thesis using assms
    by (simp add: previousPage_def Let_def showNotification_def history_inv_def loadPage_history)
next
  case NextPage
  then show ?thesis using assms
    by (simp add: nextPage_def Let_def showNotification_def history_inv_def loadPage_history)
next
  case (SaveSignature b)
  then show ?thesis using assms
    by (simp add: saveSignature_def history_inv_def showNotification_def)
next
  case (LoadPrescription doc)
  show ?thesis
  proof (cases doc)
    case Malformed
    then show ?thesis using assms LoadPrescription
      by (simp add: loadPrescription_def history_inv_def showNotification_def)
  next
    case (Document dp ds)
    with assms(2) LoadPrescription obtain ps where "pages_or_empty dp = Some ps" by auto
    then show ?thesis using assms(1) LoadPrescription Document
      by (simp add: loadPrescription_def loadPage_def loadCanvasState_def history_inv_def
          showNotification_def Let_def split: option.splits)
  qed
next
  case (AddText t)
  show ?thesis
  proof (cases t)
    case None
    then show ?thesis using assms AddText by (simp add: addText_def)
  next
    case (Some glyphs)
    let ?c = "(ctx s)\<lparr>fillStyle := currentColor s\<rparr>"
    have "history_inv (s\<lparr>ctx := ?c, canvas := drawImage ?c glyphs (canvas s)\<rparr>)"
      using assms by (simp add: history_inv_def)
    from history_inv_and_then [OF this, of "showNotification Text_added"]
    show ?thesis using AddText Some
      by (simp add: addText_def Let_def history_inv_showNotification)
  qed
next
  case (AddStamp circle word)
  let ?c1 = "(ctx s)\<lparr>strokeStyle := currentColor s, lineWidth := 3\<rparr>"
  let ?c2 = "?c1\<lparr>fillStyle := currentColor s\<rparr>"
  have "history_inv (s\<lparr>ctx := ?c2,
      canvas := drawImage ?c2 word (drawImage ?c1 circle (canvas s))\<rparr>)"
    using assms by (simp add: history_inv_def)
  from history_inv_and_then [OF this, of "showNotification Stamp_added"]
  show ?thesis using AddStamp
    by (simp add: addStamp_def Let_def history_inv_showNotification)
next
  case (ImageLoaded k)
  have "history_inv (s\<lparr>loading := splice1 (loading s) k\<rparr>)"
    using assms by (simp add: history_inv_def)
  then show ?thesis using assms ImageLoaded
    by (simp add: imageLoaded_def history_inv_onload)
qed

lemma history_inv_run:
  "history_inv s \<Longrightarrow> \<not> list_ex stops es \<Longrightarrow> \<exists>s'. run es s = Inr s' \<and> history_inv s'"
proof (induction es arbitrary: s)
  case Nil
  then show ?case by simp
next
  case (Cons e es)
  from Cons.prems(2) have n: "\<not> stops e" "\<not> list_ex stops es" by simp_all
  from history_inv_handle [OF Cons.prems(1) n(1)]
  obtain s1 where "handle e s = Inr s1" "history_inv s1" by blast
  with Cons.IH [OF _ n(2), of s1] show ?case by simp
qed

lemma stops_handle: "stops e \<Longrightarrow> handle e s = Inl PagesNotAnArray"
  by (cases e rule: stops.cases) (simp_all add: loadPrescription_def)

lemma history_inv_step:
  assumes "history_inv s" and "handle e s = Inr s'"
  shows "history_inv s'"
proof (cases "stops e")
  case True
  from stops_handle [OF this, of s] assms(2) show ?thesis by simp
next
  case False
  from history_inv_handle [OF assms(1) False] assms(2) show ?thesis by auto
qed

lemma history_inv_run_Inr:
  "history_inv s \<Longrightarrow> run es s = Inr s' \<Longrightarrow> history_inv s'"
proof (induction es arbitrary: s)
  case Nil
  then show ?case by simp
next
  case (Cons e es)
  from Cons.prems(2) obtain s1 where s1: "handle e s = Inr s1" "run es s1 = Inr s'"
    by (cases "handle e s") simp_all
  from history_inv_step [OF Cons.prems(1) s1(1)] have "history_inv s1" .
  from Cons.IH [OF this s1(2)] show ?case .
qed

section \<open>The state after start-up\<close>

lemma paint_transparent: "paint c transparent d = d"
  by (cases d) (simp add: paint_def transparent_def scale_def plus_pixel_def alpha_def Let_def
      split: composite_op.splits)

lemma paint_opaque:
  "globalCompositeOperation c = source_over \<Longrightarrow> globalAlpha c = 1 \<Longrightarrow> alpha p = 1 \<Longrightarrow>
   paint c p d = p"
  by (cases d, cases p) (simp add: paint_def scale_def plus_pixel_def alpha_def Let_def)

lemma fillRect_white:
  "globalCompositeOperation c = source_over \<Longrightarrow> globalAlpha c = 1 \<Longrightarrow> fillStyle c = white \<Longrightarrow>
   fillRect c bm = replicate (length bm) (solid white)"
proof -
  assume a: "globalCompositeOperation c = source_over" "globalAlpha c = 1" "fillStyle c = white"
  have "paint c (solid white) = (\<lambda>d. solid white)"
    by (rule ext) (simp add: paint_opaque a solid_def white_def alpha_def)
  then show ?thesis by (simp add: fillRect_def a map_replicate_const)
qed

lemma new_PrescriptionCanvas_result:
  "new_PrescriptionCanvas n m saved =
     Inr (loadSavedSignature saved
       \<lparr>canvas = replicate n (solid white),
        ctx = getContext\<lparr>lineCap := ''round'', lineJoin := ''round'', fillStyle := white\<rparr>,
        signatureCanvas = replicate m (solid white),
        signatureCtx = getContext\<lparr>lineCap := ''round'', lineJoin := ''round'', fillStyle := white\<rparr>,
        isDrawing = False, currentTool = pen, currentColor = black, currentSize = Some 2,
        pages = [toDataURL (replicate n transparent)], currentPageIndex = 0,
        history = [toDataURL (replicate n transparent)], historyStep = 0,
        savedSignature = None, loading = [], notifications = []\<rparr>)"
proof -
  let ?c = "getContext\<lparr>lineCap := ''round'', lineJoin := ''round'', fillStyle := white\<rparr>"
  have c: "globalCompositeOperation ?c = source_over" "globalAlpha ?c = 1" "fillStyle ?c = white"
    by (simp_all add: getContext_def)
  have f: "fillRect ?c (replicate k transparent) = replicate k (solid white)" for k
    using fillRect_white [OF c] by simp
  show ?thesis
    unfolding new_PrescriptionCanvas_def initializeCanvas_def saveState_def and_then_def
    by (simp add: Let_def js_assign_def f)
qed

lemma loadSavedSignature_fields:
  "history (loadSavedSignature saved s) = history s"
  "historyStep (loadSavedSignature saved s) = historyStep s"
  "pages (loadSavedSignature saved s) = pages s"
  "currentPageIndex (loadSavedSignature saved s) = currentPageIndex s"
  "canvas (loadSavedSignature saved s) = canvas s"
  "ctx (loadSavedSignature saved s) = ctx s"
  "currentTool (loadSavedSignature saved s) = currentTool s"
  "isDrawing (loadSavedSignature saved s) = isDrawing s"
  "notifications (loadSavedSignature saved s) = notifications s"
  by (simp_all add: loadSavedSignature_def split: option.splits)

lemma new_PrescriptionCanvas_inv:
  "\<exists>s. new_PrescriptionCanvas n m saved = Inr s \<and> history_inv s \<and> pages_inv s"
  unfolding new_PrescriptionCanvas_result history_inv_def pages_inv_def
  by (simp add: loadSavedSignature_fields toDataURL_def loads_def decode_def)

lemma session_history_inv:
  "\<not> list_ex stops es \<Longrightarrow> \<exists>s. session n m saved es = Inr s \<and> history_inv s"
proof -
  assume a: "\<not> list_ex stops es"
  obtain s0 where "new_PrescriptionCanvas n m saved = Inr s0" "history_inv s0"
    using new_PrescriptionCanvas_inv by blast
  then show ?thesis using history_inv_run [OF _ a, of s0] by (simp add: session_def)
qed

section \<open>Invariants of the page collection\<close>

lemma length_js_assign: "length (js_assign xs i v) = max (length xs) (Suc i)"
  by (simp add: js_assign_def)

lemma saveState_frame:
  "case saveState s of
     Inl err \<Rightarrow> True
   | Inr s' \<Rightarrow>
       pages s' = js_assign (pages s) (currentPageIndex s) (toDataURL (canvas s))
       \<and> currentPageIndex s' = currentPageIndex s
       \<and> canvas s' = canvas s \<and> ctx s' = ctx s \<and> loading s' = loading s
       \<and> notifications s' = notifications s \<and> isDrawing s' = isDrawing s
       \<and> currentTool s' = currentTool s"
  by (simp add: saveState_def Let_def)

lemma saveState_fields:
  assumes "saveState s = Inr s'"
  shows "pages s' = js_assign (pages s) (currentPageIndex s) (toDataURL (canvas s))"
    and "currentPageIndex s' = currentPageIndex s"
    and "canvas s' = canvas s" and "ctx s' = ctx s" and "loading s' = loading s"
    and "notifications s' = notifications s" and "isDrawing s' = isDrawing s"
    and "currentTool s' = currentTool s"
  using saveState_frame [of s] assms by simp_all

lemma index_inv_saveState: "saveState s = Inr s' \<Longrightarrow> index_inv s'"
  by (simp add: index_inv_def saveState_fields length_js_assign less_max_iff_disj)

lemma pages_inv_saveState: "saveState s = Inr s' \<Longrightarrow> pages_inv s'"
  by (simp add: pages_inv_def saveState_fields length_js_assign less_max_iff_disj le_max_iff_disj)

lemma and_then_Inr: "and_then r f = Inr s' \<Longrightarrow> \<exists>s1. r = Inr s1 \<and> s' = f s1"
  by (cases r) (simp_all add: and_then_def)

section \<open>Image loads that finish\<close>

lemma onload_showNotification:
  "onload l (showNotification msg s) = showNotification msg (onload l s)"
  by (simp add: onload_def showNotification_def Let_def split: image_load.splits option.splits)

lemma fold_onload_showNotification:
  "fold onload ls (showNotification msg s) = showNotification msg (fold onload ls s)"
  by (induction ls arbitrary: s) (simp_all add: onload_showNotification)

lemma settle_showNotification:
  "settle (showNotification msg s) = showNotification msg (settle s)"
proof -
  have "(showNotification msg s)\<lparr>loading := []\<rparr> = showNotification msg (s\<lparr>loading := []\<rparr>)"
    by (simp add: showNotification_def)
  moreover have "loading (showNotification msg s) = loading s"
    by (simp add: showNotification_def)
  ultimately show ?thesis by (simp add: settle_def fold_onload_showNotification)
qed

lemma no_loading: "loading s = [] \<Longrightarrow> s\<lparr>loading := []\<rparr> = s"
  by (cases s) simp

lemma settle_loadCanvasState:
  assumes "loading s = []"
  shows "settle (loadCanvasState u s) =
     (case decode u of
        None \<Rightarrow> s
      | Some img \<Rightarrow>
          s\<lparr>ctx := (ctx s)\<lparr>fillStyle := white\<rparr>, canvas := rendered (ctx s) u (canvas s),
            pages := js_assign (pages s) (currentPageIndex s) u\<rparr>)"
proof -
  have "settle (loadCanvasState u s) = onload (CanvasState u) (s\<lparr>loading := []\<rparr>)"
    using assms by (simp add: settle_def loadCanvasState_def)
  also have "\<dots> = onload (CanvasState u) s" using assms by (simp add: no_loading)
  also have "\<dots> = (case decode u of
        None \<Rightarrow> s
      | Some img \<Rightarrow>
          s\<lparr>ctx := (ctx s)\<lparr>fillStyle := white\<rparr>, canvas := rendered (ctx s) u (canvas s),
            pages := js_assign (pages s) (currentPageIndex s) u\<rparr>)"
    by (simp add: onload_def rendered_def Let_def split: option.splits)
  finally show ?thesis .
qed

lemma settle_undoLast:
  assumes "loading s = []" and "0 < historyStep s"
  shows "settle (undoLast s) =
     showNotification Undone
       (settle (loadCanvasState (js_index (history s) (historyStep s - 1))
          (s\<lparr>historyStep := historyStep s - 1\<rparr>)))"
  using assms by (simp add: undoLast_def Let_def settle_showNotification)

lemma settle_redoLast:
  assumes "loading s = []" and "historyStep s < int (length (history s)) - 1"
  shows "settle (redoLast s) =
     showNotification Redone
       (settle (loadCanvasState (js_index (history s) (historyStep s + 1))
          (s\<lparr>historyStep := historyStep s + 1\<rparr>)))"
  using assms by (simp add: redoLast_def Let_def settle_showNotification)

lemma history_inv_loads:
  "history_inv s \<Longrightarrow> 0 \<le> i \<Longrightarrow> i < int (length (history s)) \<Longrightarrow>
   js_index (history s) i = history s ! nat i \<and> (\<exists>img. history s ! nat i = Png img)"
proof -
  assume a: "history_inv s" "0 \<le> i" "i < int (length (history s))"
  then have "nat i < length (history s)" by simp
  with a(1) have "loads (history s ! nat i)"
    by (simp add: history_inv_def list_all_length)
  then have "\<exists>img. history s ! nat i = Png img"
    by (cases "history s ! nat i") (simp_all add: loads_def decode_def)
  with a show ?thesis by (simp add: js_index_def)
qed

section \<open>The history stack: pushing, undoing, redoing\<close>

lemma session_projr:
  "\<not> list_ex stops es \<Longrightarrow> session n m saved es = Inr (projr (session n m saved es))"
  using session_history_inv [of es n m saved] by auto

lemma session_inv: "session n m saved es = Inr s \<Longrightarrow> history_inv s"
proof -
  assume a: "session n m saved es = Inr s"
  obtain s0 where s0: "new_PrescriptionCanvas n m saved = Inr s0" "history_inv s0"
    using new_PrescriptionCanvas_inv by blast
  from a s0(1) have "run es s0 = Inr s" by (simp add: session_def)
  from history_inv_run_Inr [OF s0(2) this] show ?thesis .
qed

lemma redoLast_at_end:
  "historyStep s = int (length (history s)) - 1 \<Longrightarrow> redoLast s = showNotification Nothing_to_redo s"
  by (simp add: redoLast_def)

lemma saveState_history_inv:
  assumes "history_inv s"
  shows "saveState s =
     Inr (s\<lparr>historyStep := (if 49 \<le> historyStep s then historyStep s else historyStep s + 1),
            history := (if 49 \<le> historyStep s then tl (pushed s) else pushed s),
            pages := js_assign (pages s) (currentPageIndex s) (toDataURL (canvas s))\<rparr>)"
  using assms by (intro saveState_result) (simp_all add: history_inv_def)

text \<open>
  C1. In every state a session can reach, \<^verbatim>\<open>saveState\<close> leaves the cursor at the last
  index of the history, so that a redo right after it fails; and unless the cursor was at
  the last index before, the history afterwards is the entries up to the cursor followed
  by the new snapshot: exactly the entries behind the cursor are gone.
\<close>

theorem push_discards_redo:
  assumes "session n m saved es = Inr s"
  shows "\<exists>s'. saveState s = Inr s'
           \<and> historyStep s' = int (length (history s')) - 1
           \<and> redoLast s' = showNotification Nothing_to_redo s'
           \<and> (historyStep s = int (length (history s)) - 1
              \<or> history s' = take (nat (historyStep s) + 1) (history s) @ [toDataURL (canvas s)])"
proof -
  have inv: "history_inv s" using assms by (rule session_inv)
  then have b: "0 \<le> historyStep s" "historyStep s < int (length (history s))"
    "length (history s) \<le> 50"
    by (simp_all add: history_inv_def)
  let ?s' = "s\<lparr>historyStep := (if 49 \<le> historyStep s then historyStep s else historyStep s + 1),
            history := (if 49 \<le> historyStep s then tl (pushed s) else pushed s),
            pages := js_assign (pages s) (currentPageIndex s) (toDataURL (canvas s))\<rparr>"
  have r: "saveState s = Inr ?s'" using inv by (rule saveState_history_inv)
  have len: "length (pushed s) = nat (historyStep s + 1) + 1"
    using b by (intro length_pushed) simp_all
  have cur: "historyStep ?s' = int (length (history ?s')) - 1"
    using b len by auto
  have redo: "redoLast ?s' = showNotification Nothing_to_redo ?s'"
    using cur by (rule redoLast_at_end)
  have "history ?s' = take (nat (historyStep s) + 1) (history s) @ [toDataURL (canvas s)]"
    if "historyStep s \<noteq> int (length (history s)) - 1"
  proof -
    from that b have "\<not> 49 \<le> historyStep s" by simp
    moreover have "nat (historyStep s + 1) = nat (historyStep s) + 1" using b by simp
    ultimately show ?thesis by (simp add: pushed_def)
  qed
  with r cur redo show ?thesis by blast
qed

lemma session_example: "\<not> list_ex stops es \<Longrightarrow> session 1 1 None es = Inr (example es)"
  unfolding example_def by (rule session_projr)

lemmas events = stroke_def undo_def redo_def stroke_events_def list_ex_iff

theorem push_discards_redo_witness:
  "session 1 1 None (stroke @ stroke @ undo) = Inr (example (stroke @ stroke @ undo))
   \<and> historyStep (example (stroke @ stroke @ undo)) = 1
   \<and> length (history (example (stroke @ stroke @ undo))) = 3
   \<and> (\<exists>s'. saveState (example (stroke @ stroke @ undo)) = Inr s'
         \<and> historyStep s' = int (length (history s')) - 1
         \<and> redoLast s' = showNotification Nothing_to_redo s'
         \<and> history s' = take 2 (history (example (stroke @ stroke @ undo)))
              @ [toDataURL (canvas (example (stroke @ stroke @ undo)))])"
proof -
  let ?s = "example (stroke @ stroke @ undo)"
  have r: "session 1 1 None (stroke @ stroke @ undo) = Inr ?s" by (rule session_example) (simp add: events)
  have c: "historyStep ?s = 1" "length (history ?s) = 3" by code_simp+
  from push_discards_redo [OF r] c r show ?thesis by (simp add: numeral_2_eq_2)
qed

text \<open>
  C2. In every state a session can reach, which covers every sequence of pushes, undos
  and redos, the history has at most 50 entries, and still has after another
  \<^verbatim>\<open>saveState\<close>. When the entries up to the cursor and the new snapshot would be more than
  50, the first entry is dropped, the cursor, raised by one and lowered by one, points
  at the new snapshot, and the undo that follows succeeds.
\<close>

theorem history_bounded:
  assumes "session n m saved es = Inr s"
  shows "length (history s) \<le> 50
    \<and> (\<exists>s'. saveState s = Inr s' \<and> length (history s') \<le> 50
          \<and> (length (pushed s) \<le> 50
             \<or> (history s' = tl (pushed s)
                \<and> historyStep s' = historyStep s + 1 - 1
                \<and> js_index (history s') (historyStep s') = toDataURL (canvas s)
                \<and> undoLast s' =
                    showNotification Undone
                      (loadCanvasState (js_index (history s') (historyStep s' - 1))
                         (s'\<lparr>historyStep := historyStep s' - 1\<rparr>)))))"
proof -
  have inv: "history_inv s" using assms by (rule session_inv)
  then have b: "0 \<le> historyStep s" "historyStep s < int (length (history s))"
    "length (history s) \<le> 50"
    by (simp_all add: history_inv_def)
  let ?s' = "s\<lparr>historyStep := (if 49 \<le> historyStep s then historyStep s else historyStep s + 1),
            history := (if 49 \<le> historyStep s then tl (pushed s) else pushed s),
            pages := js_assign (pages s) (currentPageIndex s) (toDataURL (canvas s))\<rparr>"
  have r: "saveState s = Inr ?s'" using inv by (rule saveState_history_inv)
  have len: "length (pushed s) = nat (historyStep s + 1) + 1"
    using b by (intro length_pushed) simp_all
  have bound: "length (history ?s') \<le> 50" using b len by auto
  have over: "history ?s' = tl (pushed s) \<and> historyStep ?s' = historyStep s + 1 - 1
      \<and> js_index (history ?s') (historyStep ?s') = toDataURL (canvas s)
      \<and> undoLast ?s' = showNotification Undone
           (loadCanvasState (js_index (history ?s') (historyStep ?s' - 1))
              (?s'\<lparr>historyStep := historyStep ?s' - 1\<rparr>))"
    if "\<not> length (pushed s) \<le> 50"
  proof -
    from that len b have h: "historyStep s = 49" by simp
    then have l: "length (history s) = 50" using b by simp
    have "tl (pushed s) ! 49 = pushed s ! 50"
      using len h by (simp add: nth_tl)
    also have "\<dots> = toDataURL (canvas s)"
      using h l by (simp add: pushed_def nth_append)
    finally have "js_index (tl (pushed s)) 49 = toDataURL (canvas s)"
      using len h by (simp add: js_index_def)
    then show ?thesis using h by (simp add: undoLast_def Let_def)
  qed
  from r bound over b(3) show ?thesis by blast
qed

theorem history_bounded_witness:
  "session 1 1 None (concat (replicate 49 stroke)) = Inr (example (concat (replicate 49 stroke)))
   \<and> length (history (example (concat (replicate 49 stroke)))) = 50
   \<and> length (pushed (example (concat (replicate 49 stroke)))) = 51
   \<and> (\<exists>s'. saveState (example (concat (replicate 49 stroke))) = Inr s'
         \<and> length (history s') = 50
         \<and> history s' = tl (pushed (example (concat (replicate 49 stroke))))
         \<and> historyStep s' = 49
         \<and> undoLast s' =
              showNotification Undone
                (loadCanvasState (js_index (history s') 48) (s'\<lparr>historyStep := 48\<rparr>)))"
proof -
  let ?s = "example (concat (replicate 49 stroke))"
  have r: "session 1 1 None (concat (replicate 49 stroke)) = Inr ?s" by (rule session_example) (simp add: events)
  have h: "historyStep ?s = 49" by code_simp
  have "history_inv ?s" using r by (rule session_inv)
  with h have l: "length (history ?s) = 50" by (simp add: history_inv_def)
  from h l have p: "length (pushed ?s) = 51" by (simp add: length_pushed)
  note c = h l p
  from history_bounded [OF r] obtain s' where s': "saveState ?s = Inr s'"
    "length (history s') \<le> 50"
    "length (pushed ?s) \<le> 50 \<or> (history s' = tl (pushed ?s)
                \<and> historyStep s' = historyStep ?s + 1 - 1
                \<and> js_index (history s') (historyStep s') = toDataURL (canvas ?s)
                \<and> undoLast s' =
                    showNotification Undone
                      (loadCanvasState (js_index (history s') (historyStep s' - 1))
                         (s'\<lparr>historyStep := historyStep s' - 1\<rparr>)))"
    by blast
  from s'(3) c have t: "history s' = tl (pushed ?s)" "historyStep s' = 49"
    "undoLast s' = showNotification Undone
       (loadCanvasState (js_index (history s') 48) (s'\<lparr>historyStep := 48\<rparr>))"
    by simp_all
  from t(1) c have "length (history s') = 50" by simp
  with r c s'(1) t show ?thesis by blast
qed

lemma settled: "loading s = [] \<Longrightarrow> settle s = s"
  by (simp add: settle_def no_loading)

lemma settle_undoLast_inv:
  assumes "history_inv s" and "loading s = []"
  shows "settle (undoLast s) =
     (if historyStep s = 0 then showNotification Nothing_to_undo s
      else showNotification Undone
        (s\<lparr>historyStep := historyStep s - 1,
           ctx := (ctx s)\<lparr>fillStyle := white\<rparr>,
           canvas := rendered (ctx s) (history s ! nat (historyStep s - 1)) (canvas s),
           pages := js_assign (pages s) (currentPageIndex s)
                      (history s ! nat (historyStep s - 1))\<rparr>))"
proof (cases "historyStep s = 0")
  case True
  then show ?thesis using assms(2)
    by (simp add: undoLast_def settle_showNotification settled)
next
  case False
  with assms(1) have pos: "0 < historyStep s" by (simp add: history_inv_def)
  let ?s1 = "s\<lparr>historyStep := historyStep s - 1\<rparr>"
  have "0 \<le> historyStep s - 1" "historyStep s - 1 < int (length (history s))"
    using pos assms(1) by (simp_all add: history_inv_def)
  from history_inv_loads [OF assms(1) this] obtain img where
    u: "js_index (history s) (historyStep s - 1) = history s ! nat (historyStep s - 1)"
       "history s ! nat (historyStep s - 1) = Png img"
    by blast
  have l: "loading ?s1 = []" using assms(2) by simp
  have "settle (undoLast s) =
      showNotification Undone (settle (loadCanvasState (history s ! nat (historyStep s - 1)) ?s1))"
    using settle_undoLast [OF assms(2) pos] u(1) by simp
  also have "settle (loadCanvasState (history s ! nat (historyStep s - 1)) ?s1) =
      ?s1\<lparr>ctx := (ctx ?s1)\<lparr>fillStyle := white\<rparr>,
          canvas := rendered (ctx ?s1) (history s ! nat (historyStep s - 1)) (canvas ?s1),
          pages := js_assign (pages ?s1) (currentPageIndex ?s1)
                     (history s ! nat (historyStep s - 1))\<rparr>"
    unfolding settle_loadCanvasState [OF l] using u(2) by (simp add: decode_def)
  finally show ?thesis using False by simp
qed

lemma settle_redoLast_inv:
  assumes "history_inv s" and "loading s = []"
  shows "settle (redoLast s) =
     (if historyStep s = int (length (history s)) - 1 then showNotification Nothing_to_redo s
      else showNotification Redone
        (s\<lparr>historyStep := historyStep s + 1,
           ctx := (ctx s)\<lparr>fillStyle := white\<rparr>,
           canvas := rendered (ctx s) (history s ! nat (historyStep s + 1)) (canvas s),
           pages := js_assign (pages s) (currentPageIndex s)
                      (history s ! nat (historyStep s + 1))\<rparr>))"
proof (cases "historyStep s = int (length (history s)) - 1")
  case True
  then show ?thesis using assms(2)
    by (simp add: redoLast_def settle_showNotification settled)
next
  case False
  with assms(1) have pos: "historyStep s < int (length (history s)) - 1"
    by (simp add: history_inv_def)
  let ?s1 = "s\<lparr>historyStep := historyStep s + 1\<rparr>"
  have "0 \<le> historyStep s + 1" "historyStep s + 1 < int (length (history s))"
    using pos assms(1) by (simp_all add: history_inv_def)
  from history_inv_loads [OF assms(1) this] obtain img where
    u: "js_index (history s) (historyStep s + 1) = history s ! nat (historyStep s + 1)"
       "history s ! nat (historyStep s + 1) = Png img"
    by blast
  have l: "loading ?s1 = []" using assms(2) by simp
  have "settle (redoLast s) =
      showNotification Redone (settle (loadCanvasState (history s ! nat (historyStep s + 1)) ?s1))"
    using settle_redoLast [OF assms(2) pos] u(1) by simp
  also have "settle (loadCanvasState (history s ! nat (historyStep s + 1)) ?s1) =
      ?s1\<lparr>ctx := (ctx ?s1)\<lparr>fillStyle := white\<rparr>,
          canvas := rendered (ctx ?s1) (history s ! nat (historyStep s + 1)) (canvas ?s1),
          pages := js_assign (pages ?s1) (currentPageIndex ?s1)
                     (history s ! nat (historyStep s + 1))\<rparr>"
    unfolding settle_loadCanvasState [OF l] using u(2) by (simp add: decode_def)
  finally show ?thesis using False by simp
qed

text \<open>
  The steps of undo and redo. In every state a session can reach in which no image is
  loading: an undo fails with ``Nothing to undo'' exactly when the cursor is 0, and then
  changes nothing but the notifications; otherwise it lowers the cursor by one and, once
  the image has loaded, the slot of the active page holds the snapshot at the new cursor
  and the canvas is what the context, as the last tool left it, makes of the white fill
  and of that snapshot. A redo fails with ``Nothing to redo'' exactly when the cursor is
  the last index, and then changes nothing but the notifications; otherwise it raises
  the cursor by one and does the same with the snapshot there. The cursor of such a
  state points into the history, and every snapshot of the history loads. Whether the
  canvas then shows the snapshot depends on the context: it does for the pen, and does
  not for the eraser, as the last section shows.
\<close>

lemma undo_redo_outcome:
  assumes "session n m saved es = Inr s" and "loading s = []"
  shows "settle (undoLast s) =
     (if historyStep s = 0 then showNotification Nothing_to_undo s
      else showNotification Undone
        (s\<lparr>historyStep := historyStep s - 1,
           ctx := (ctx s)\<lparr>fillStyle := white\<rparr>,
           canvas := rendered (ctx s) (history s ! nat (historyStep s - 1)) (canvas s),
           pages := js_assign (pages s) (currentPageIndex s)
                      (history s ! nat (historyStep s - 1))\<rparr>))
   \<and> settle (redoLast s) =
     (if historyStep s = int (length (history s)) - 1 then showNotification Nothing_to_redo s
      else showNotification Redone
        (s\<lparr>historyStep := historyStep s + 1,
           ctx := (ctx s)\<lparr>fillStyle := white\<rparr>,
           canvas := rendered (ctx s) (history s ! nat (historyStep s + 1)) (canvas s),
           pages := js_assign (pages s) (currentPageIndex s)
                      (history s ! nat (historyStep s + 1))\<rparr>))
   \<and> 0 \<le> historyStep s \<and> historyStep s < int (length (history s))
   \<and> list_all loads (history s)"
proof -
  have inv: "history_inv s" using assms(1) by (rule session_inv)
  from settle_undoLast_inv [OF inv assms(2)] settle_redoLast_inv [OF inv assms(2)] inv
  show ?thesis by (simp only: history_inv_def)
qed


section \<open>Invariants of the page collection, continued\<close>

lemma index_inv_onload: "index_inv s \<Longrightarrow> index_inv (onload l s)"
  by (simp add: onload_def index_inv_def Let_def length_js_assign less_max_iff_disj
      split: image_load.splits option.splits)

lemma pages_inv_onload: "pages_inv s \<Longrightarrow> pages_inv (onload l s)"
  by (simp add: onload_def pages_inv_def Let_def length_js_assign less_max_iff_disj le_max_iff_disj
      split: image_load.splits option.splits)

lemma index_inv_loadPage: "index_inv s \<Longrightarrow> index_inv (loadPage (currentPageIndex s) s)"
  by (simp add: loadPage_def loadCanvasState_def index_inv_def Let_def length_js_assign
      less_max_iff_disj)

lemma pages_inv_loadPage: "pages_inv s \<Longrightarrow> pages_inv (loadPage (currentPageIndex s) s)"
  by (simp add: loadPage_def loadCanvasState_def pages_inv_def Let_def length_js_assign
      less_max_iff_disj le_max_iff_disj)

lemma length_splice1: "i < length xs \<Longrightarrow> length (splice1 xs i) = length xs - 1"
  by (simp add: splice1_def)

lemma pages_inv_index_inv: "pages_inv s \<Longrightarrow> index_inv s"
  by (simp add: pages_inv_def index_inv_def)

lemma index_inv_pages_inv: "index_inv s \<Longrightarrow> pages s \<noteq> [] \<Longrightarrow> pages_inv s"
  by (cases "pages s") (simp_all add: pages_inv_def index_inv_def)

lemma pages_inv_deletePage: "pages_inv s \<Longrightarrow> pages_inv (deletePage s)"
proof -
  assume a: "pages_inv s"
  show ?thesis
  proof (cases "length (pages s) > 1")
    case False
    then show ?thesis using a by (simp add: deletePage_def pages_inv_def showNotification_def)
  next
    case True
    let ?ps = "splice1 (pages s) (currentPageIndex s)"
    let ?i = "if currentPageIndex s \<ge> length ?ps then length ?ps - 1 else currentPageIndex s"
    let ?s1 = "s\<lparr>pages := ?ps, currentPageIndex := ?i\<rparr>"
    have l: "length ?ps = length (pages s) - 1"
      using a by (simp add: length_splice1 pages_inv_def)
    have "pages_inv ?s1" using True l by (auto simp add: pages_inv_def)
    from pages_inv_loadPage [OF this] have "pages_inv (loadPage ?i ?s1)" by simp
    then have "pages_inv (showNotification (Page_deleted (currentPageIndex s + 1)) (loadPage ?i ?s1))"
      by (simp add: pages_inv_def showNotification_def)
    then show ?thesis using True by (simp add: deletePage_def Let_def)
  qed
qed

lemma pages_inv_previousPage: "pages_inv s \<Longrightarrow> pages_inv (previousPage s)"
proof -
  assume a: "pages_inv s"
  show ?thesis
  proof (cases "currentPageIndex s > 0")
    case False
    then show ?thesis using a by (simp add: previousPage_def pages_inv_def showNotification_def)
  next
    case True
    let ?s1 = "s\<lparr>pages := js_assign (pages s) (currentPageIndex s) (toDataURL (canvas s)),
                     currentPageIndex := currentPageIndex s - 1\<rparr>"
    have "pages_inv ?s1" using a True
      by (auto simp add: pages_inv_def length_js_assign less_max_iff_disj le_max_iff_disj)
    from pages_inv_loadPage [OF this] show ?thesis using True
      by (simp add: previousPage_def Let_def)
  qed
qed

lemma pages_inv_nextPage: "pages_inv s \<Longrightarrow> pages_inv (nextPage s)"
proof -
  assume a: "pages_inv s"
  show ?thesis
  proof (cases "int (currentPageIndex s) < int (length (pages s)) - 1")
    case False
    then show ?thesis using a by (simp add: nextPage_def pages_inv_def showNotification_def)
  next
    case True
    let ?s1 = "s\<lparr>pages := js_assign (pages s) (currentPageIndex s) (toDataURL (canvas s)),
                     currentPageIndex := currentPageIndex s + 1\<rparr>"
    have "pages_inv ?s1" using a True
      by (auto simp add: pages_inv_def length_js_assign less_max_iff_disj le_max_iff_disj)
    from pages_inv_loadPage [OF this] show ?thesis using True
      by (simp add: nextPage_def Let_def)
  qed
qed

lemma pages_inv_cong:
  "pages s' = pages s \<Longrightarrow> currentPageIndex s' = currentPageIndex s \<Longrightarrow> pages_inv s' = pages_inv s"
  by (simp add: pages_inv_def)

lemma index_inv_cong:
  "pages s' = pages s \<Longrightarrow> currentPageIndex s' = currentPageIndex s \<Longrightarrow> index_inv s' = index_inv s"
  by (simp add: index_inv_def)

lemma pages_inv_and_then:
  assumes "and_then (saveState s1) f = Inr s'"
    and "\<And>s2. pages (f s2) = pages s2" and "\<And>s2. currentPageIndex (f s2) = currentPageIndex s2"
  shows "pages_inv s'"
proof -
  from and_then_Inr [OF assms(1)] obtain s2 where s2: "saveState s1 = Inr s2" "s' = f s2"
    by blast
  from pages_inv_saveState [OF s2(1)] show ?thesis
    using s2(2) assms(2,3) by (simp add: pages_inv_def)
qed

lemma loadPrescription_frame:
  "case loadPrescription (Document dp ds) s of
     Inl err \<Rightarrow> pages_or_empty dp = None
   | Inr s' \<Rightarrow>
       (\<exists>ps. pages_or_empty dp = Some ps
          \<and> pages s' = pages (if ps = [] then s\<lparr>pages := ps, currentPageIndex := 0\<rparr>
                              else loadPage 0 (s\<lparr>pages := ps, currentPageIndex := 0\<rparr>))
          \<and> currentPageIndex s' =
              currentPageIndex (if ps = [] then s\<lparr>pages := ps, currentPageIndex := 0\<rparr>
                                else loadPage 0 (s\<lparr>pages := ps, currentPageIndex := 0\<rparr>)))"
  by (cases "pages_or_empty dp"; cases ds)
    (simp_all add: loadPrescription_def Let_def showNotification_def)

lemma loadPrescription_pages:
  assumes "loadPrescription (Document dp ds) s = Inr s'"
  shows "\<exists>ps. pages_or_empty dp = Some ps
          \<and> pages s' = pages (if ps = [] then s\<lparr>pages := ps, currentPageIndex := 0\<rparr>
                              else loadPage 0 (s\<lparr>pages := ps, currentPageIndex := 0\<rparr>))
          \<and> currentPageIndex s' =
              currentPageIndex (if ps = [] then s\<lparr>pages := ps, currentPageIndex := 0\<rparr>
                                else loadPage 0 (s\<lparr>pages := ps, currentPageIndex := 0\<rparr>))"
  using loadPrescription_frame [where dp = dp and ds = ds and s = s] assms by simp

lemma loadPrescription_Malformed:
  "loadPrescription Malformed s = Inr (showNotification Error_loading_prescription_file s)"
  by (simp add: loadPrescription_def)

lemma pages_inv_loadPrescription:
  assumes "pages_inv s" and "brings_pages (LoadPrescription doc)"
    and "loadPrescription doc s = Inr s'"
  shows "pages_inv s'"
proof (cases doc)
  case Malformed
  then show ?thesis using assms(1,3)
    by (auto simp add: loadPrescription_Malformed pages_inv_def showNotification_def)
next
  case (Document dp ds)
  with assms(2) obtain qs where qs: "dp = Some (JArray qs)" "qs \<noteq> []"
    by (cases "LoadPrescription doc" rule: brings_pages.cases) auto
  from loadPrescription_pages [OF assms(3) [unfolded Document]] qs
  have f: "pages s' = pages (loadPage 0 (s\<lparr>pages := qs, currentPageIndex := 0\<rparr>))"
    "currentPageIndex s' = currentPageIndex (loadPage 0 (s\<lparr>pages := qs, currentPageIndex := 0\<rparr>))"
    by auto
  let ?s1 = "s\<lparr>pages := qs, currentPageIndex := 0\<rparr>"
  have "pages_inv ?s1" using qs by (simp add: pages_inv_def Suc_le_eq)
  from pages_inv_loadPage [OF this] have "pages_inv (loadPage 0 ?s1)" by simp
  then show ?thesis using f by (simp add: pages_inv_def)
qed

lemma pages_inv_handle:
  assumes "pages_inv s" and "brings_pages e" and "handle e s = Inr s'"
  shows "pages_inv s'"
proof (cases e)
  case (MouseDown b)
  then show ?thesis using assms by (auto simp add: startDrawing_def pages_inv_def Let_def)
next
  case (MouseMove b path)
  then show ?thesis using assms by (auto simp add: draw_def pages_inv_def)
next
  case (MouseUp b)
  then show ?thesis using assms
    by (auto simp add: stopDrawing_def Let_def pages_inv_saveState split: if_splits)
      (simp add: pages_inv_def)
next
  case (SetTool t)
  then show ?thesis using assms
    by (auto simp add: setTool_def pages_inv_def showNotification_def Let_def)
next
  case (SetColor c)
  then show ?thesis using assms by (auto simp add: setColor_def pages_inv_def)
next
  case (SetSize k)
  then show ?thesis using assms by (auto simp add: setSize_def pages_inv_def)
next
  case ClearCanvas
  then have "and_then (saveState (s\<lparr>ctx := (ctx s)\<lparr>fillStyle := white\<rparr>,
      canvas := fillRect ((ctx s)\<lparr>fillStyle := white\<rparr>) (canvas s)\<rparr>))
      (showNotification Canvas_cleared) = Inr s'"
    using assms(3) by (simp add: clearCanvas_def Let_def)
  then show ?thesis by (rule pages_inv_and_then) (simp_all add: showNotification_def)
next
  case ClearSignature
  then show ?thesis using assms
    by (auto simp add: clearSignature_def pages_inv_def showNotification_def Let_def)
next
  case UndoLast
  then show ?thesis using assms
    by (auto simp add: undoLast_def loadCanvasState_def pages_inv_def showNotification_def Let_def)
next
  case RedoLast
  then show ?thesis using assms
    by (auto simp add: redoLast_def loadCanvasState_def pages_inv_def showNotification_def Let_def)
next
  case AddPage
  then have "and_then (saveState (s\<lparr>pages := pages s @ [Text ''''],
      currentPageIndex := length (pages s @ [Text '''']) - 1,
      ctx := (ctx s)\<lparr>fillStyle := white\<rparr>,
      canvas := fillRect ((ctx s)\<lparr>fillStyle := white\<rparr>) (canvas s)\<rparr>))
      (\<lambda>s2. showNotification (Page_added (currentPageIndex s2 + 1)) s2) = Inr s'"
    using assms(3) by (simp add: addPage_def Let_def)
  then show ?thesis by (rule pages_inv_and_then) (simp_all add: showNotification_def)
next
  case DeletePage
  then show ?thesis using assms pages_inv_deletePage [of s] by auto
next
  case PreviousPage
  then show ?thesis using assms pages_inv_previousPage [of s] by auto
next
  case NextPage
  then show ?thesis using assms pages_inv_nextPage [of s] by auto
next
  case (SaveSignature b)
  then show ?thesis using assms
    by (auto simp add: saveSignature_def pages_inv_def showNotification_def)
next
  case (LoadPrescription doc)
  then show ?thesis using assms pages_inv_loadPrescription [of s doc s'] by auto
next
  case (AddText t)
  show ?thesis
  proof (cases t)
    case None
    then show ?thesis using assms AddText by (simp add: addText_def)
  next
    case (Some glyphs)
    then have "and_then (saveState (s\<lparr>ctx := (ctx s)\<lparr>fillStyle := currentColor s\<rparr>,
        canvas := drawImage ((ctx s)\<lparr>fillStyle := currentColor s\<rparr>) glyphs (canvas s)\<rparr>))
        (showNotification Text_added) = Inr s'"
      using assms(3) AddText by (simp add: addText_def Let_def)
    then show ?thesis by (rule pages_inv_and_then) (simp_all add: showNotification_def)
  qed
next
  case (AddStamp circle word)
  then have "and_then (saveState (s\<lparr>ctx := (ctx s)\<lparr>strokeStyle := currentColor s, lineWidth := 3,
        fillStyle := currentColor s\<rparr>,
      canvas := drawImage ((ctx s)\<lparr>strokeStyle := currentColor s, lineWidth := 3,
        fillStyle := currentColor s\<rparr>) word
        (drawImage ((ctx s)\<lparr>strokeStyle := currentColor s, lineWidth := 3\<rparr>) circle (canvas s))\<rparr>))
      (showNotification Stamp_added) = Inr s'"
    using assms(3) by (simp add: addStamp_def Let_def)
  then show ?thesis by (rule pages_inv_and_then) (simp_all add: showNotification_def)
next
  case (ImageLoaded k)
  have "pages_inv (s\<lparr>loading := splice1 (loading s) k\<rparr>)"
    using assms(1) by (simp add: pages_inv_def)
  from pages_inv_onload [OF this] show ?thesis using assms ImageLoaded
    by (auto simp add: imageLoaded_def split: if_splits)
qed

lemma pages_inv_run:
  "pages_inv s \<Longrightarrow> list_all brings_pages es \<Longrightarrow> run es s = Inr s' \<Longrightarrow> pages_inv s'"
proof (induction es arbitrary: s)
  case Nil
  then show ?case by simp
next
  case (Cons e es)
  from Cons.prems(3) obtain s1 where s1: "handle e s = Inr s1" "run es s1 = Inr s'"
    by (cases "handle e s") simp_all
  from pages_inv_handle [OF Cons.prems(1) _ s1(1)] Cons.prems(2) have "pages_inv s1" by simp
  from Cons.IH [OF this _ s1(2)] Cons.prems(2) show ?case by simp
qed

lemma index_inv_deletePage: "index_inv s \<Longrightarrow> index_inv (deletePage s)"
proof -
  assume a: "index_inv s"
  show ?thesis
  proof (cases "length (pages s) > 1")
    case False
    then show ?thesis using a by (simp add: deletePage_def index_inv_def showNotification_def)
  next
    case True
    then have "pages_inv s" using a by (intro index_inv_pages_inv) auto
    then have "pages_inv (deletePage s)" by (rule pages_inv_deletePage)
    then show ?thesis by (rule pages_inv_index_inv)
  qed
qed

lemma index_inv_previousPage: "index_inv s \<Longrightarrow> index_inv (previousPage s)"
proof -
  assume a: "index_inv s"
  show ?thesis
  proof (cases "currentPageIndex s > 0")
    case False
    then show ?thesis using a by (simp add: previousPage_def index_inv_def showNotification_def)
  next
    case True
    then have "pages_inv s" using a by (intro index_inv_pages_inv) (auto simp add: index_inv_def)
    then have "pages_inv (previousPage s)" by (rule pages_inv_previousPage)
    then show ?thesis by (rule pages_inv_index_inv)
  qed
qed

lemma index_inv_nextPage: "index_inv s \<Longrightarrow> index_inv (nextPage s)"
proof -
  assume a: "index_inv s"
  show ?thesis
  proof (cases "int (currentPageIndex s) < int (length (pages s)) - 1")
    case False
    then show ?thesis using a by (simp add: nextPage_def index_inv_def showNotification_def)
  next
    case True
    then have "pages_inv s" using a by (intro index_inv_pages_inv) auto
    then have "pages_inv (nextPage s)" by (rule pages_inv_nextPage)
    then show ?thesis by (rule pages_inv_index_inv)
  qed
qed

lemma index_inv_and_then:
  assumes "and_then (saveState s1) f = Inr s'"
    and "\<And>s2. pages (f s2) = pages s2" and "\<And>s2. currentPageIndex (f s2) = currentPageIndex s2"
  shows "index_inv s'"
  using pages_inv_and_then [OF assms] by (rule pages_inv_index_inv)

lemma index_inv_loadPrescription:
  assumes "index_inv s" and "loadPrescription doc s = Inr s'"
  shows "index_inv s'"
proof (cases doc)
  case Malformed
  then show ?thesis using assms
    by (auto simp add: loadPrescription_Malformed index_inv_def showNotification_def)
next
  case (Document dp ds)
  from loadPrescription_pages [OF assms(2) [unfolded Document]] obtain ps where
    f: "pages s' = pages (if ps = [] then s\<lparr>pages := ps, currentPageIndex := 0\<rparr>
                              else loadPage 0 (s\<lparr>pages := ps, currentPageIndex := 0\<rparr>))"
      "currentPageIndex s' =
              currentPageIndex (if ps = [] then s\<lparr>pages := ps, currentPageIndex := 0\<rparr>
                                else loadPage 0 (s\<lparr>pages := ps, currentPageIndex := 0\<rparr>))"
    by blast
  let ?s1 = "s\<lparr>pages := ps, currentPageIndex := 0\<rparr>"
  have i: "index_inv ?s1" by (cases ps) (simp_all add: index_inv_def)
  from index_inv_loadPage [OF i] have "index_inv (loadPage 0 ?s1)" by simp
  with i f show ?thesis by (cases "ps = []") (simp_all add: index_inv_def)
qed

lemma pages_unchanged:
  "pages (startDrawing b s) = pages s"
  "currentPageIndex (startDrawing b s) = currentPageIndex s"
  "pages (draw b path s) = pages s"
  "currentPageIndex (draw b path s) = currentPageIndex s"
  "pages (setTool t s) = pages s"
  "currentPageIndex (setTool t s) = currentPageIndex s"
  "pages (setColor c s) = pages s"
  "currentPageIndex (setColor c s) = currentPageIndex s"
  "pages (setSize k s) = pages s"
  "currentPageIndex (setSize k s) = currentPageIndex s"
  "pages (clearSignature s) = pages s"
  "currentPageIndex (clearSignature s) = currentPageIndex s"
  "pages (undoLast s) = pages s"
  "currentPageIndex (undoLast s) = currentPageIndex s"
  "pages (redoLast s) = pages s"
  "currentPageIndex (redoLast s) = currentPageIndex s"
  "pages (saveSignature b s) = pages s"
  "currentPageIndex (saveSignature b s) = currentPageIndex s"
  by (simp_all add: startDrawing_def draw_def setTool_def setColor_def setSize_def
      clearSignature_def undoLast_def redoLast_def saveSignature_def loadCanvasState_def
      showNotification_def Let_def)

lemma index_inv_unchanged:
  "index_inv (startDrawing b s) = index_inv s"
  "index_inv (draw b path s) = index_inv s"
  "index_inv (setTool t s) = index_inv s"
  "index_inv (setColor c s) = index_inv s"
  "index_inv (setSize k s) = index_inv s"
  "index_inv (clearSignature s) = index_inv s"
  "index_inv (undoLast s) = index_inv s"
  "index_inv (redoLast s) = index_inv s"
  "index_inv (saveSignature b s) = index_inv s"
  by (simp_all add: index_inv_def pages_unchanged)

lemma index_inv_handle:
  assumes "index_inv s" and "handle e s = Inr s'"
  shows "index_inv s'"
proof (cases "brings_pages e \<and> pages s \<noteq> []")
  case True
  then have "pages_inv s" using assms(1) by (simp add: index_inv_pages_inv)
  from pages_inv_handle [OF this _ assms(2)] True show ?thesis by (simp add: pages_inv_index_inv)
next
  case False
  show ?thesis
  proof (cases e)
    case (MouseDown b)
    then show ?thesis using assms by (auto simp add: index_inv_unchanged)
  next
    case (MouseMove b path)
    then show ?thesis using assms by (auto simp add: index_inv_unchanged)
  next
    case (MouseUp b)
    show ?thesis
    proof (cases "isDrawing s \<and> \<not> b")
      case True
      then have "saveState (s\<lparr>isDrawing := False\<rparr>) = Inr s'"
        using assms(2) MouseUp by (simp add: stopDrawing_def Let_def)
      then show ?thesis by (rule index_inv_saveState)
    next
      case False
      then have "s' = s \<or> s' = s\<lparr>isDrawing := False\<rparr>"
        using assms(2) MouseUp by (auto simp add: stopDrawing_def Let_def split: if_splits)
      then show ?thesis using assms(1) by (auto simp add: index_inv_def)
    qed
  next
    case (SetTool t)
    then show ?thesis using assms by (auto simp add: index_inv_unchanged)
  next
    case (SetColor c)
    then show ?thesis using assms by (auto simp add: index_inv_unchanged)
  next
    case (SetSize k)
    then show ?thesis using assms by (auto simp add: index_inv_unchanged)
  next
    case ClearCanvas
    then have "and_then (saveState (s\<lparr>ctx := (ctx s)\<lparr>fillStyle := white\<rparr>,
        canvas := fillRect ((ctx s)\<lparr>fillStyle := white\<rparr>) (canvas s)\<rparr>))
        (showNotification Canvas_cleared) = Inr s'"
      using assms(2) by (simp add: clearCanvas_def Let_def)
    then show ?thesis by (rule index_inv_and_then) (simp_all add: showNotification_def)
  next
    case ClearSignature
    then show ?thesis using assms by (auto simp add: index_inv_unchanged)
  next
    case UndoLast
    then show ?thesis using assms by (auto simp add: index_inv_unchanged)
  next
    case RedoLast
    then show ?thesis using assms by (auto simp add: index_inv_unchanged)
  next
    case AddPage
    then have "and_then (saveState (s\<lparr>pages := pages s @ [Text ''''],
        currentPageIndex := length (pages s @ [Text '''']) - 1,
        ctx := (ctx s)\<lparr>fillStyle := white\<rparr>,
        canvas := fillRect ((ctx s)\<lparr>fillStyle := white\<rparr>) (canvas s)\<rparr>))
        (\<lambda>s2. showNotification (Page_added (currentPageIndex s2 + 1)) s2) = Inr s'"
      using assms(2) by (simp add: addPage_def Let_def)
    then show ?thesis by (rule index_inv_and_then) (simp_all add: showNotification_def)
  next
    case DeletePage
    then show ?thesis using assms index_inv_deletePage [of s] by auto
  next
    case PreviousPage
    then show ?thesis using assms index_inv_previousPage [of s] by auto
  next
    case NextPage
    then show ?thesis using assms index_inv_nextPage [of s] by auto
  next
    case (SaveSignature b)
    then show ?thesis using assms by (auto simp add: index_inv_unchanged)
  next
    case (LoadPrescription doc)
    then show ?thesis using assms index_inv_loadPrescription [of s doc s'] by auto
  next
    case (AddText t)
    show ?thesis
    proof (cases t)
      case None
      then show ?thesis using assms AddText by (simp add: addText_def)
    next
      case (Some glyphs)
      then have "and_then (saveState (s\<lparr>ctx := (ctx s)\<lparr>fillStyle := currentColor s\<rparr>,
          canvas := drawImage ((ctx s)\<lparr>fillStyle := currentColor s\<rparr>) glyphs (canvas s)\<rparr>))
          (showNotification Text_added) = Inr s'"
        using assms(2) AddText by (simp add: addText_def Let_def)
      then show ?thesis by (rule index_inv_and_then) (simp_all add: showNotification_def)
    qed
  next
    case (AddStamp circle word)
    then have "and_then (saveState (s\<lparr>ctx := (ctx s)\<lparr>strokeStyle := currentColor s, lineWidth := 3,
          fillStyle := currentColor s\<rparr>,
        canvas := drawImage ((ctx s)\<lparr>strokeStyle := currentColor s, lineWidth := 3,
          fillStyle := currentColor s\<rparr>) word
          (drawImage ((ctx s)\<lparr>strokeStyle := currentColor s, lineWidth := 3\<rparr>) circle (canvas s))\<rparr>))
        (showNotification Stamp_added) = Inr s'"
      using assms(2) by (simp add: addStamp_def Let_def)
    then show ?thesis by (rule index_inv_and_then) (simp_all add: showNotification_def)
  next
    case (ImageLoaded k)
    have "index_inv (s\<lparr>loading := splice1 (loading s) k\<rparr>)"
      using assms(1) by (simp add: index_inv_def)
    from index_inv_onload [OF this] show ?thesis using assms ImageLoaded
      by (auto simp add: imageLoaded_def split: if_splits)
  qed
qed

lemma index_inv_run:
  "index_inv s \<Longrightarrow> run es s = Inr s' \<Longrightarrow> index_inv s'"
proof (induction es arbitrary: s)
  case Nil
  then show ?case by simp
next
  case (Cons e es)
  from Cons.prems(2) obtain s1 where s1: "handle e s = Inr s1" "run es s1 = Inr s'"
    by (cases "handle e s") simp_all
  from index_inv_handle [OF Cons.prems(1) s1(1)] have "index_inv s1" .
  from Cons.IH [OF this s1(2)] show ?case .
qed

lemma session_index_inv: "session n m saved es = Inr s \<Longrightarrow> index_inv s"
proof -
  assume a: "session n m saved es = Inr s"
  obtain s0 where s0: "new_PrescriptionCanvas n m saved = Inr s0" "pages_inv s0"
    using new_PrescriptionCanvas_inv by blast
  from a s0(1) have "run es s0 = Inr s" by (simp add: session_def)
  from index_inv_run [OF pages_inv_index_inv [OF s0(2)] this] show ?thesis .
qed

text \<open>
  C5, as amended. In every state reached by a session in which every import either fails
  to parse or brings a file whose \<^verbatim>\<open>pages\<close> member is an array with at least one
  element, the page collection has at least one page and the active page index is a valid
  index into it.
\<close>

theorem pages_never_empty:
  assumes "session n m saved es = Inr s" and "list_all brings_pages es"
  shows "1 \<le> length (pages s) \<and> currentPageIndex s < length (pages s)"
proof -
  obtain s0 where s0: "new_PrescriptionCanvas n m saved = Inr s0" "pages_inv s0"
    using new_PrescriptionCanvas_inv by blast
  from assms(1) s0(1) have "run es s0 = Inr s" by (simp add: session_def)
  from pages_inv_run [OF s0(2) assms(2) this] show ?thesis by (simp add: pages_inv_def)
qed

theorem pages_never_empty_witness:
  "session 1 1 None
     ([AddPage, LoadPrescription (Document (Some (JArray [Text ''abc'', Text ''''])) None), NextPage, DeletePage])
     = Inr (example
     ([AddPage, LoadPrescription (Document (Some (JArray [Text ''abc'', Text ''''])) None), NextPage, DeletePage]))
   \<and> list_all brings_pages
     ([AddPage, LoadPrescription (Document (Some (JArray [Text ''abc'', Text ''''])) None), NextPage, DeletePage])
   \<and> 1 \<le> length (pages (example
     ([AddPage, LoadPrescription (Document (Some (JArray [Text ''abc'', Text ''''])) None), NextPage, DeletePage])))
   \<and> currentPageIndex (example
     ([AddPage, LoadPrescription (Document (Some (JArray [Text ''abc'', Text ''''])) None), NextPage, DeletePage]))
      < length (pages (example
     ([AddPage, LoadPrescription (Document (Some (JArray [Text ''abc'', Text ''''])) None), NextPage, DeletePage])))"
proof -
  let ?es = "[AddPage, LoadPrescription (Document (Some (JArray [Text ''abc'', Text ''''])) None),
    NextPage, DeletePage]"
  have r: "session 1 1 None ?es = Inr (example ?es)" by (rule session_example) (simp add: events)
  have b: "list_all brings_pages ?es" by simp
  from pages_never_empty [OF r b] r b show ?thesis by simp
qed

text \<open>
  C5 as stated fails: after the import of a file whose page list is empty, which the
  code accepts and reports as loaded, the page collection is empty.
\<close>

theorem import_of_no_pages_empties:
  "session 1 1 None [LoadPrescription (Document (Some (JArray [])) None)]
     = Inr (example [LoadPrescription (Document (Some (JArray [])) None)])
   \<and> length (pages (example [LoadPrescription (Document (Some (JArray [])) None)])) = 0
   \<and> currentPageIndex (example [LoadPrescription (Document (Some (JArray [])) None)]) = 0"
proof -
  have "length (pages (example [LoadPrescription (Document (Some (JArray [])) None)])) = 0"
    "currentPageIndex (example [LoadPrescription (Document (Some (JArray [])) None)]) = 0"
    by code_simp+
  moreover have "session 1 1 None [LoadPrescription (Document (Some (JArray [])) None)]
     = Inr (example [LoadPrescription (Document (Some (JArray [])) None)])"
    by (rule session_example) simp
  ultimately show ?thesis by simp
qed

text \<open>
  What the other values of the \<^verbatim>\<open>pages\<close> member do: a false one (\<^verbatim>\<open>null\<close>, \<^verbatim>\<open>false\<close>,
  \<^verbatim>\<open>0\<close>, \<^verbatim>\<open>''\<close>) is replaced by the empty array, as an absent member is; a true one
  that is no array is kept, and there the session leaves the model.
\<close>

lemma import_of_other_pages:
  "pages_or_empty (Some JNull) = Some []
   \<and> pages_or_empty (Some (JBool False)) = Some []
   \<and> pages_or_empty (Some (JNumber 0)) = Some []
   \<and> pages_or_empty (Some (JString [])) = Some []
   \<and> pages_or_empty (Some JObject) = None
   \<and> pages_or_empty (Some (JNumber 5)) = None
   \<and> pages_or_empty (Some (JBool True)) = None
   \<and> pages_or_empty (Some (JString ''abc'')) = None
   \<and> pages (example [LoadPrescription (Document (Some JNull) None)]) = []
   \<and> session 1 1 None [LoadPrescription (Document (Some JObject) None)] = Inl PagesNotAnArray"
proof -
  have "pages (example [LoadPrescription (Document (Some JNull) None)]) = []"
    "session 1 1 None [LoadPrescription (Document (Some JObject) None)] = Inl PagesNotAnArray"
    by code_simp+
  then show ?thesis by simp
qed

section \<open>Import, page deletion and page navigation\<close>

text \<open>
  C10. When the parsed file has no \<^verbatim>\<open>pages\<close> member or an empty page list, the import
  succeeds: it shows ``Prescription loaded successfully!'', the page collection becomes
  the empty list and the active index 0; the canvas is left as it is, no page slot is
  created and no image is requested for the canvas (only the one for the signature, if
  the file has a signature).
\<close>

theorem import_without_pages:
  assumes "data_pages = None \<or> data_pages = Some (JArray [])"
  shows "loadPrescription (Document data_pages data_signature) s =
     Inr (showNotification Prescription_loaded_successfully
       (s\<lparr>pages := [], currentPageIndex := 0,
          loading := loading s @
            (case data_signature of
               None \<Rightarrow> []
             | Some u \<Rightarrow> if truthy u then [SignatureImage u] else [])\<rparr>))"
proof -
  have "s\<lparr>pages := [], currentPageIndex := 0, loading := loading s\<rparr>
      = s\<lparr>pages := [], currentPageIndex := 0\<rparr>"
    by (cases s) simp
  then show ?thesis using assms
    by (auto simp add: loadPrescription_def Let_def split: option.splits)
qed

theorem import_without_pages_witness:
  "loadPrescription (Document None None) (example []) =
     Inr (showNotification Prescription_loaded_successfully
       ((example [])\<lparr>pages := [], currentPageIndex := 0, loading := []\<rparr>))
   \<and> loadPrescription (Document (Some (JArray [])) (Some (Text ''sig''))) (example []) =
     Inr (showNotification Prescription_loaded_successfully
       ((example [])\<lparr>pages := [], currentPageIndex := 0, loading := [SignatureImage (Text ''sig'')]\<rparr>))
   \<and> pages (example []) \<noteq> []"
proof -
  have l: "loading (example []) = []" "pages (example []) \<noteq> []" by code_simp+
  from import_without_pages [of None None "example []"]
    import_without_pages [of "Some (JArray [])" "Some (Text ''sig'')" "example []"] l
  show ?thesis by (simp add: truthy_def)
qed

lemma js_assign_same: "i < length xs \<Longrightarrow> js_assign xs i (xs ! i) = xs"
  by (simp add: js_assign_def)

lemma same_pages: "s\<lparr>pages := pages s\<rparr> = s"
  by (cases s) simp

lemma settle_loadPage:
  assumes "loading s = []" and "currentPageIndex s < length (pages s)"
  shows "settle (loadPage (currentPageIndex s) s) = page_shown (currentPageIndex s) s"
proof -
  let ?i = "currentPageIndex s"
  have ix: "js_index (pages s) (int ?i) = pages s ! ?i"
    using assms(2) by (simp add: js_index_def)
  show ?thesis
  proof (cases "truthy (pages s ! ?i)")
    case False
    then show ?thesis using assms ix
      by (simp add: loadPage_def page_shown_def Let_def js_assign_def settled)
  next
    case True
    then have ne: "pages s ! ?i \<noteq> Text ''''" by (auto simp add: truthy_def)
    have "settle (loadPage ?i s) = settle (loadCanvasState (pages s ! ?i) s)"
      using True ne ix by (simp add: loadPage_def)
    also have "\<dots> = (case decode (pages s ! ?i) of
        None \<Rightarrow> s
      | Some img \<Rightarrow>
          s\<lparr>ctx := (ctx s)\<lparr>fillStyle := white\<rparr>,
            canvas := rendered (ctx s) (pages s ! ?i) (canvas s),
            pages := js_assign (pages s) ?i (pages s ! ?i)\<rparr>)"
      using assms(1) by (rule settle_loadCanvasState)
    also have "\<dots> = page_shown ?i s"
      using True assms(2)
      by (simp add: page_shown_def Let_def js_assign_same same_pages split: option.splits)
    finally show ?thesis .
  qed
qed

text \<open>
  The steps of \<^verbatim>\<open>deletePage\<close>. In every state a session can reach in which no image is
  loading: with at most one page, \<^verbatim>\<open>deletePage\<close> shows ``Cannot delete the last page''
  and changes nothing else, neither the page list nor the active index. With more pages
  it removes the entry of the active page, lowers the active index to the new last index
  if it lies beyond, and runs \<^verbatim>\<open>loadPage\<close> for the page now at the active index, with
  the context as the last tool left it. The active index of such a state is a valid
  index, so an entry is removed and the list becomes one shorter.
\<close>

lemma deletePage_outcome:
  assumes "session n m saved es = Inr s" and "loading s = []"
  shows "settle (deletePage s) =
     (if length (pages s) \<le> 1 then showNotification Cannot_delete_the_last_page s
      else showNotification (Page_deleted (currentPageIndex s + 1))
             (page_shown (min (currentPageIndex s) (length (pages s) - 2))
                (s\<lparr>pages := take (currentPageIndex s) (pages s)
                              @ drop (currentPageIndex s + 1) (pages s),
                    currentPageIndex := min (currentPageIndex s) (length (pages s) - 2)\<rparr>)))
   \<and> length (take (currentPageIndex s) (pages s) @ drop (currentPageIndex s + 1) (pages s))
       = length (pages s) - 1"
proof -
  have ii: "index_inv s" using assms(1) by (rule session_index_inv)
  then have len: "length (take (currentPageIndex s) (pages s)
      @ drop (currentPageIndex s + 1) (pages s)) = length (pages s) - 1"
    by (auto simp add: index_inv_def)
  have "settle (deletePage s) =
      showNotification (Page_deleted (currentPageIndex s + 1))
             (page_shown (min (currentPageIndex s) (length (pages s) - 2))
                (s\<lparr>pages := take (currentPageIndex s) (pages s)
                              @ drop (currentPageIndex s + 1) (pages s),
                    currentPageIndex := min (currentPageIndex s) (length (pages s) - 2)\<rparr>))"
    if many: "\<not> length (pages s) \<le> 1"
  proof -
    let ?ps = "splice1 (pages s) (currentPageIndex s)"
    let ?i = "if currentPageIndex s \<ge> length ?ps then length ?ps - 1 else currentPageIndex s"
    let ?s1 = "s\<lparr>pages := ?ps, currentPageIndex := ?i\<rparr>"
    have l: "length ?ps = length (pages s) - 1" using len by (simp add: splice1_def)
    have i: "?i = min (currentPageIndex s) (length (pages s) - 2)"
      using l many by (auto simp add: min_def)
    have "loading ?s1 = []" "currentPageIndex ?s1 < length (pages ?s1)"
      using assms(2) l many by auto
    from settle_loadPage [OF this] have "settle (loadPage ?i ?s1) = page_shown ?i ?s1"
      by simp
    then have "settle (deletePage s) =
        showNotification (Page_deleted (currentPageIndex s + 1)) (page_shown ?i ?s1)"
      using many by (simp add: deletePage_def Let_def settle_showNotification)
    then show ?thesis unfolding i by (simp add: splice1_def)
  qed
  moreover have "settle (deletePage s) = showNotification Cannot_delete_the_last_page s"
    if "length (pages s) \<le> 1"
    using that assms(2) by (simp add: deletePage_def settle_showNotification settled)
  ultimately show ?thesis using len by simp
qed


text \<open>
  The steps of page navigation. In every state a session can reach in which no image is
  loading: \<^verbatim>\<open>previousPage\<close> on page index 0 shows ``Already on first page'', and
  \<^verbatim>\<open>nextPage\<close> on the last page index shows ``Already on last page''; neither then
  changes the page list, the active index or the canvas. Otherwise the snapshot of the
  canvas is stored in the slot of the active page, the index moves by one, and
  \<^verbatim>\<open>loadPage\<close> runs for the page at the new index, with the context as the last tool
  left it.
\<close>

lemma page_navigation:
  assumes "session n m saved es = Inr s" and "loading s = []"
  shows "settle (previousPage s) =
     (if currentPageIndex s = 0 then showNotification Already_on_first_page s
      else page_shown (currentPageIndex s - 1)
             (s\<lparr>pages := (pages s)[currentPageIndex s := toDataURL (canvas s)],
                 currentPageIndex := currentPageIndex s - 1\<rparr>))
   \<and> settle (nextPage s) =
     (if currentPageIndex s = length (pages s) - 1 then showNotification Already_on_last_page s
      else page_shown (currentPageIndex s + 1)
             (s\<lparr>pages := (pages s)[currentPageIndex s := toDataURL (canvas s)],
                 currentPageIndex := currentPageIndex s + 1\<rparr>))"
proof -
  have ii: "index_inv s" using assms(1) by (rule session_index_inv)
  have prev: "settle (previousPage s) =
      page_shown (currentPageIndex s - 1)
             (s\<lparr>pages := (pages s)[currentPageIndex s := toDataURL (canvas s)],
                 currentPageIndex := currentPageIndex s - 1\<rparr>)"
    if pos: "currentPageIndex s \<noteq> 0"
  proof -
    from pos ii have v: "currentPageIndex s < length (pages s)" by (auto simp add: index_inv_def)
    let ?s1 = "s\<lparr>pages := js_assign (pages s) (currentPageIndex s) (toDataURL (canvas s)),
                     currentPageIndex := currentPageIndex s - 1\<rparr>"
    have a: "js_assign (pages s) (currentPageIndex s) (toDataURL (canvas s))
        = (pages s)[currentPageIndex s := toDataURL (canvas s)]"
      using v by (simp add: js_assign_def)
    have "loading ?s1 = []" "currentPageIndex ?s1 < length (pages ?s1)"
      using assms(2) v a by auto
    from settle_loadPage [OF this] show ?thesis using pos a
      by (simp add: previousPage_def Let_def)
  qed
  have nxt: "settle (nextPage s) =
      page_shown (currentPageIndex s + 1)
             (s\<lparr>pages := (pages s)[currentPageIndex s := toDataURL (canvas s)],
                 currentPageIndex := currentPageIndex s + 1\<rparr>)"
    if more: "currentPageIndex s \<noteq> length (pages s) - 1"
  proof -
    from more ii have v: "currentPageIndex s + 1 < length (pages s)"
      by (auto simp add: index_inv_def)
    let ?s1 = "s\<lparr>pages := js_assign (pages s) (currentPageIndex s) (toDataURL (canvas s)),
                     currentPageIndex := currentPageIndex s + 1\<rparr>"
    have a: "js_assign (pages s) (currentPageIndex s) (toDataURL (canvas s))
        = (pages s)[currentPageIndex s := toDataURL (canvas s)]"
      using v by (simp add: js_assign_def)
    have "loading ?s1 = []" "currentPageIndex ?s1 < length (pages ?s1)"
      using assms(2) v a by auto
    from settle_loadPage [OF this] show ?thesis using v a
      by (simp add: nextPage_def Let_def)
  qed
  have first: "settle (previousPage s) = showNotification Already_on_first_page s"
    if "currentPageIndex s = 0"
    using that assms(2) by (simp add: previousPage_def settle_showNotification settled)
  have last: "settle (nextPage s) = showNotification Already_on_last_page s"
    if "currentPageIndex s = length (pages s) - 1"
  proof -
    from that have "\<not> int (currentPageIndex s) < int (length (pages s)) - 1" by auto
    then show ?thesis using assms(2) by (simp add: nextPage_def settle_showNotification settled)
  qed
  from prev nxt first last show ?thesis by simp
qed

section \<open>The tool table\<close>

text \<open>
  C8. When a stroke starts, on the prescription canvas or on the signature canvas, with
  a selected size that is a positive integer (up to \<open>2 ^ 51\<close>, where the products of
  the code are exact), the context of that canvas gets the composition and the opacity
  that the tool table gives for the current tool, and as line width the selected size
  times the multiplier of the table: pen source-over, 1, 1; brush source-over, 0.8, 1.5;
  highlighter source-over, 0.3, 3; eraser destination-out, 1, 2.
\<close>

theorem stroke_uses_tool_table:
  assumes "currentSize s = Some selected" and "0 < selected" and "selected \<le> 2 ^ 51"
  shows "drawing_parameters (ctx (startDrawing False s)) =
     (case tool_table (currentTool s) of
        (operation, opacity, multiplier) \<Rightarrow>
          (operation, opacity, of_int selected * multiplier))
   \<and> drawing_parameters (signatureCtx (startDrawing True s)) =
     (case tool_table (currentTool s) of
        (operation, opacity, multiplier) \<Rightarrow>
          (operation, opacity, of_int selected * multiplier))
   \<and> tool_table pen = (source_over, 1, 1)
   \<and> tool_table brush = (source_over, 8 / 10, 15 / 10)
   \<and> tool_table highlighter = (source_over, 3 / 10, 3)
   \<and> tool_table eraser = (destination_out, 1, 2)"
  using assms
  by (cases "currentTool s")
    (simp_all add: startDrawing_def setDrawingProperties_def set_lineWidth_def
      drawing_parameters_def Let_def)

theorem stroke_uses_tool_table_witness:
  "currentSize (example [SetSize (Some 4), SetTool brush]) = Some 4
   \<and> (0::int) < 4 \<and> (4::int) \<le> 2 ^ 51
   \<and> currentTool (example [SetSize (Some 4), SetTool brush]) = brush
   \<and> drawing_parameters (ctx (startDrawing False (example [SetSize (Some 4), SetTool brush])))
       = (source_over, 8 / 10, 6)
   \<and> drawing_parameters (signatureCtx (startDrawing True (example [SetSize (Some 4), SetTool brush])))
       = (source_over, 8 / 10, 6)
   \<and> drawing_parameters (signatureCtx (example [SetSize (Some 4), SetTool brush]))
       = (source_over, 1, 1)"
proof -
  let ?s = "example [SetSize (Some 4), SetTool brush]"
  have c: "currentSize ?s = Some 4" "currentTool ?s = brush"
    "drawing_parameters (signatureCtx ?s) = (source_over, 1, 1)"
    by code_simp+
  have b: "(0::int) < 4" "(4::int) \<le> 2 ^ 51" by simp_all
  from stroke_uses_tool_table [OF c(1) b] c b show ?thesis by simp
qed

text \<open>
  A size of 0 is not taken: the context keeps the width it had, here that of a new
  context.
\<close>

lemma size_zero_keeps_width:
  "lineWidth (ctx (startDrawing False (example [SetSize (Some 0)]))) = 1"
  by code_simp

section \<open>Drawing with the pen\<close>

lemma alpha_over_white: "alpha (over_white p) = 1"
  by (cases p) (simp add: over_white_def alpha_def plus_pixel_def scale_def solid_def white_def)

lemma over_white_opaque: "opaque p \<Longrightarrow> over_white p = p"
  by (cases p) (simp add: over_white_def opaque_def alpha_def plus_pixel_def scale_def)

lemma scale_1: "scale 1 p = p"
  by (cases p) (simp add: scale_def)

lemma paint_plain: "plain c \<Longrightarrow> paint c p d = plus_pixel p (scale (1 - alpha p) d)"
  by (simp add: paint_def plain_def scale_1 Let_def)

lemma paint_plain_opaque: "plain c \<Longrightarrow> opaque d \<Longrightarrow> opaque (paint c p d)"
  by (cases p, cases d)
    (simp add: paint_plain opaque_def alpha_def plus_pixel_def scale_def)

lemma drawImage_length: "length (drawImage c ps ds) = length ds"
  by (induction c ps ds rule: drawImage.induct) simp_all

lemma drawImage_plain_opaque:
  "plain c \<Longrightarrow> list_all opaque ds \<Longrightarrow> list_all opaque (drawImage c ps ds)"
  by (induction c ps ds rule: drawImage.induct) (simp_all add: paint_plain_opaque)

lemma drawImage_on_white:
  "plain c \<Longrightarrow> length img = n \<Longrightarrow>
   drawImage c img (replicate n (solid white)) = map over_white img"
proof (induction img arbitrary: n)
  case Nil
  then show ?case by simp
next
  case (Cons p img)
  then obtain k where k: "n = Suc k" "length img = k" by (cases n) auto
  with Cons show ?case by (simp add: paint_plain over_white_def)
qed

lemma rendered_plain:
  assumes "plain c" and "length img = length bm"
  shows "rendered c (Png img) bm = map over_white img"
proof -
  let ?c = "c\<lparr>fillStyle := white\<rparr>"
  have p: "plain ?c" using assms(1) by (simp add: plain_def)
  then have "fillRect ?c bm = replicate (length bm) (solid white)"
    by (intro fillRect_white) (simp_all add: plain_def)
  then show ?thesis using drawImage_on_white [OF p assms(2)]
    by (simp add: rendered_def decode_def)
qed

lemma map_over_white_opaque: "list_all opaque img \<Longrightarrow> map over_white img = img"
  by (induction img) (simp_all add: over_white_opaque)

lemma opaque_map_over_white: "list_all opaque (map over_white img)"
  by (induction img) (simp_all add: opaque_def alpha_over_white)

lemma run_append:
  "run (es @ fs) s = (case run es s of Inl err \<Rightarrow> Inl err | Inr s1 \<Rightarrow> run fs s1)"
  by (induction es arbitrary: s) (simp_all split: sum.splits)

lemma run_moves:
  assumes "isDrawing s" and "plain (ctx s)" and "list_all opaque (canvas s)"
  shows "\<exists>bm. run (map (MouseMove False) paths) s = Inr (s\<lparr>canvas := bm\<rparr>)
           \<and> list_all opaque bm \<and> length bm = length (canvas s)"
  using assms
proof (induction paths arbitrary: s)
  case Nil
  have "s\<lparr>canvas := canvas s\<rparr> = s" by (cases s) simp
  with Nil show ?case by (intro exI [of _ "canvas s"]) simp
next
  case (Cons p paths)
  let ?s1 = "s\<lparr>canvas := drawImage (ctx s) p (canvas s)\<rparr>"
  have d: "draw False p s = ?s1" using Cons.prems(1) by (simp add: draw_def)
  have "isDrawing ?s1" "plain (ctx ?s1)" "list_all opaque (canvas ?s1)"
    using Cons.prems by (simp_all add: drawImage_plain_opaque)
  from Cons.IH [OF this] obtain bm where
    bm: "run (map (MouseMove False) paths) ?s1 = Inr (?s1\<lparr>canvas := bm\<rparr>)"
      "list_all opaque bm" "length bm = length (canvas ?s1)"
    by blast
  have "?s1\<lparr>canvas := bm\<rparr> = s\<lparr>canvas := bm\<rparr>" by simp
  with bm d show ?case by (intro exI [of _ bm]) (simp add: drawImage_length)
qed

lemma pen_inv_canvas:
  assumes "pen_inv n s"
  shows "\<exists>img. js_index (history s) (historyStep s) = Png img \<and> length img = n
           \<and> canvas s = map over_white img"
proof -
  have h: "history_inv s" using assms by (simp add: pen_inv_def)
  then have r: "0 \<le> historyStep s" "historyStep s < int (length (history s))"
    by (simp_all add: history_inv_def)
  then have ix: "js_index (history s) (historyStep s) = history s ! nat (historyStep s)"
    by (simp add: js_index_def)
  have "nat (historyStep s) < length (history s)" using r by simp
  moreover have "list_all (snapshot_of_size n) (history s)" using assms by (simp add: pen_inv_def)
  ultimately have "snapshot_of_size n (history s ! nat (historyStep s))"
    by (simp add: list_all_length)
  then obtain img where img: "history s ! nat (historyStep s) = Png img" "length img = n"
    by (cases "history s ! nat (historyStep s)") simp_all
  have "plain (ctx s)" using assms by (simp add: pen_inv_def)
  from rendered_plain [OF this, of img "replicate n transparent"] img(2)
  have "rendered (ctx s) (Png img) (replicate n transparent) = map over_white img" by simp
  moreover have "rendered (ctx s) (js_index (history s) (historyStep s)) (replicate n transparent)
      = canvas s"
    using assms by (simp add: pen_inv_def)
  ultimately show ?thesis using ix img by simp
qed

lemma pen_inv_opaque: "pen_inv n s \<Longrightarrow> list_all opaque (canvas s)"
  using pen_inv_canvas [of n s] opaque_map_over_white by auto

lemma plain_pen:
  "currentTool s = pen \<Longrightarrow> plain (setDrawingProperties s c)"
  by (simp add: setDrawingProperties_def set_lineWidth_def plain_def Let_def
      split: option.splits)

lemma stroke_step:
  assumes "pen_inv n s" and "historyStep s < 49"
  shows "\<exists>s'. run (stroke_events paths) s = Inr s' \<and> pen_inv n s'
           \<and> historyStep s' = historyStep s + 1
           \<and> length (history s') = nat (historyStep s) + 2
           \<and> take (nat (historyStep s) + 1) (history s') = take (nat (historyStep s) + 1) (history s)
           \<and> js_index (history s') (historyStep s') = toDataURL (canvas s')
           \<and> notifications s' = notifications s"
proof -
  let ?s1 = "startDrawing False s"
  have s1: "?s1 = s\<lparr>isDrawing := True, ctx := setDrawingProperties (s\<lparr>isDrawing := True\<rparr>) (ctx s)\<rparr>"
    by (simp add: startDrawing_def Let_def)
  have tool: "currentTool s = pen" using assms(1) by (simp add: pen_inv_def)
  have p1: "plain (ctx ?s1)" unfolding s1 using tool by (simp add: plain_pen)
  have "isDrawing ?s1" "list_all opaque (canvas ?s1)"
    unfolding s1 using pen_inv_opaque [OF assms(1)] by simp_all
  from run_moves [OF this(1) p1 this(2), of paths] obtain bm where
    bm: "run (map (MouseMove False) paths) ?s1 = Inr (?s1\<lparr>canvas := bm\<rparr>)"
      "list_all opaque bm" "length bm = length (canvas ?s1)"
    by blast
  have lbm: "length bm = n" using bm(3) assms(1) unfolding s1 by (simp add: pen_inv_def)
  let ?s2 = "?s1\<lparr>canvas := bm\<rparr>"
  let ?s3 = "?s2\<lparr>isDrawing := False\<rparr>"
  have hi: "history_inv s" using assms(1) by (simp add: pen_inv_def)
  then have b: "0 \<le> historyStep s" "historyStep s < int (length (history s))"
    by (simp_all add: history_inv_def)
  have f3: "history ?s3 = history s" "historyStep ?s3 = historyStep s" "canvas ?s3 = bm"
    "loading ?s3 = loading s" "currentTool ?s3 = pen" "notifications ?s3 = notifications s"
    "ctx ?s3 = ctx ?s1"
    unfolding s1 using tool by simp_all
  have hi3: "history_inv ?s3" using hi f3(1,2) by (simp add: history_inv_def)
  let ?s' = "?s3\<lparr>historyStep := historyStep s + 1, history := pushed ?s3,
      pages := js_assign (pages ?s3) (currentPageIndex ?s3) (toDataURL (canvas ?s3))\<rparr>"
  have sv: "saveState ?s3 = Inr ?s'"
    using saveState_history_inv [OF hi3] assms(2) f3(2) by simp
  have pu: "pushed ?s3 = take (nat (historyStep s) + 1) (history s) @ [Png bm]"
  proof -
    have "nat (historyStep s + 1) = nat (historyStep s) + 1" using b by simp
    then show ?thesis unfolding pushed_def f3 by (simp add: toDataURL_def)
  qed
  have lp: "length (pushed ?s3) = nat (historyStep s) + 2"
    unfolding pu using b by simp
  have stop: "stopDrawing False ?s2 = Inr ?s'"
    using sv by (simp add: stopDrawing_def Let_def s1)
  have run: "run (stroke_events paths) s = Inr ?s'"
    unfolding stroke_events_def using bm(1) stop by (simp add: run_append)
  have f': "history ?s' = pushed ?s3" "historyStep ?s' = historyStep s + 1" "canvas ?s' = bm"
    "loading ?s' = loading s" "currentTool ?s' = pen" "notifications ?s' = notifications s"
    "ctx ?s' = ctx ?s1"
    unfolding s1 using tool by simp_all
  have ix: "js_index (history ?s') (historyStep ?s') = Png bm"
  proof -
    have "length (take (nat (historyStep s) + 1) (history s)) = nat (historyStep s) + 1"
      using b by simp
    then have "pushed ?s3 ! (nat (historyStep s) + 1) = Png bm"
      unfolding pu by (simp add: nth_append)
    moreover have "nat (historyStep s + 1) = nat (historyStep s) + 1" using b by simp
    ultimately show ?thesis unfolding f' js_index_def using lp b by simp
  qed
  have hi': "history_inv ?s'"
    using history_inv_saveState [OF hi3] sv by simp
  have sz: "list_all (snapshot_of_size n) (pushed ?s3)"
  proof -
    have "list_all (snapshot_of_size n) (history s)" using assms(1) by (simp add: pen_inv_def)
    then have "list_all (snapshot_of_size n) (take (nat (historyStep s) + 1) (history s))"
      by (auto simp add: list_all_iff dest: in_set_takeD)
    then show ?thesis unfolding pu using lbm by simp
  qed
  have rd: "rendered (ctx ?s') (js_index (history ?s') (historyStep ?s')) (replicate n transparent)
      = canvas ?s'"
  proof -
    have "plain (ctx ?s')" unfolding f' using p1 .
    from rendered_plain [OF this, of bm "replicate n transparent"] lbm
    have "rendered (ctx ?s') (Png bm) (replicate n transparent) = map over_white bm" by simp
    also have "\<dots> = bm" using bm(2) by (rule map_over_white_opaque)
    finally show ?thesis unfolding ix f'(3) .
  qed
  have pi: "pen_inv n ?s'"
    unfolding pen_inv_def
    using p1 hi' sz rd lbm assms(1) unfolding f' by (simp add: pen_inv_def)
  have tk: "take (nat (historyStep s) + 1) (history ?s') = take (nat (historyStep s) + 1) (history s)"
    unfolding f' pu using b by simp
  have cur: "js_index (history ?s') (historyStep ?s') = toDataURL (canvas ?s')"
    using ix unfolding f'(3) by (simp add: toDataURL_def)
  have lh: "length (history ?s') = nat (historyStep s) + 2" unfolding f'(1) by (rule lp)
  from run pi f'(2) lh tk cur f'(6) show ?thesis by blast
qed

lemma onload_signature_fields:
  assumes "is_signature_load l"
  shows "canvas (onload l t) = canvas t" and "ctx (onload l t) = ctx t"
    and "history (onload l t) = history t" and "historyStep (onload l t) = historyStep t"
    and "currentTool (onload l t) = currentTool t" and "loading (onload l t) = loading t"
    and "notifications (onload l t) = notifications t"
  using assms by (cases l; simp add: onload_def Let_def split: option.splits)+

lemma fold_signature_fields:
  assumes "list_all is_signature_load ls"
  shows "canvas (fold onload ls t) = canvas t \<and> ctx (fold onload ls t) = ctx t
    \<and> history (fold onload ls t) = history t \<and> historyStep (fold onload ls t) = historyStep t
    \<and> currentTool (fold onload ls t) = currentTool t \<and> loading (fold onload ls t) = loading t
    \<and> notifications (fold onload ls t) = notifications t"
  using assms
  by (induction ls arbitrary: t) (simp_all add: onload_signature_fields)

lemma onload_canvas_fields:
  assumes "decode u = Some img"
  shows "canvas (onload (CanvasState u) t) = rendered (ctx t) u (canvas t)"
    and "ctx (onload (CanvasState u) t) = (ctx t)\<lparr>fillStyle := white\<rparr>"
    and "history (onload (CanvasState u) t) = history t"
    and "historyStep (onload (CanvasState u) t) = historyStep t"
    and "currentTool (onload (CanvasState u) t) = currentTool t"
    and "loading (onload (CanvasState u) t) = loading t"
    and "notifications (onload (CanvasState u) t) = notifications t"
  using assms by (simp_all add: onload_def rendered_def Let_def)

text \<open>
  Moving the cursor of a state in which the pen invariant holds to an index \<open>k\<close> of the
  history and letting the snapshot there load keeps the invariant.
\<close>

lemma pen_inv_move:
  fixes msg :: notification
  assumes "pen_inv n s" and "0 \<le> k" and "k < int (length (history s))"
  defines "s' \<equiv> settle (showNotification msg
      (loadCanvasState (js_index (history s) k) (s\<lparr>historyStep := k\<rparr>)))"
  shows "pen_inv n s' \<and> history s' = history s \<and> historyStep s' = k
    \<and> notifications s' = msg # notifications s"
proof -
  have hi: "history_inv s" using assms(1) by (simp add: pen_inv_def)
  from history_inv_loads [OF hi assms(2,3)] obtain img where
    u: "js_index (history s) k = history s ! nat k" "history s ! nat k = Png img"
    by blast
  have "nat k < length (history s)" using assms(2,3) by simp
  moreover have "list_all (snapshot_of_size n) (history s)" using assms(1) by (simp add: pen_inv_def)
  ultimately have "snapshot_of_size n (history s ! nat k)" by (simp add: list_all_length)
  then have li: "length img = n" using u(2) by simp
  let ?u = "Png img"
  let ?x = "(showNotification msg (loadCanvasState ?u (s\<lparr>historyStep := k\<rparr>)))\<lparr>loading := []\<rparr>"
  let ?t = "fold onload (loading s) ?x"
  have s': "s' = onload (CanvasState ?u) ?t"
    unfolding s'_def u settle_def by (simp add: loadCanvasState_def showNotification_def)
  have sig: "list_all is_signature_load (loading s)" using assms(1) by (simp add: pen_inv_def)
  have x: "canvas ?x = canvas s" "ctx ?x = ctx s" "history ?x = history s" "historyStep ?x = k"
    "currentTool ?x = currentTool s" "loading ?x = []" "notifications ?x = msg # notifications s"
    by (simp_all add: loadCanvasState_def showNotification_def)
  note t = fold_signature_fields [OF sig, of ?x, unfolded x]
  have d: "decode ?u = Some img" by (simp add: decode_def)
  note o = onload_canvas_fields [OF d, of ?t, folded s']
  have f: "canvas s' = rendered (ctx s) ?u (canvas s)" "ctx s' = (ctx s)\<lparr>fillStyle := white\<rparr>"
    "history s' = history s" "historyStep s' = k" "currentTool s' = currentTool s"
    "loading s' = []" "notifications s' = msg # notifications s"
    using o t by simp_all
  have pl: "plain (ctx s)" and lc: "length (canvas s) = n" and tool: "currentTool s = pen"
    using assms(1) by (simp_all add: pen_inv_def)
  have pl': "plain (ctx s')" unfolding f using pl by (simp add: plain_def)
  have c': "canvas s' = map over_white img"
    unfolding f using rendered_plain [OF pl, of img "canvas s"] li lc by simp
  have r': "rendered (ctx s') (js_index (history s') (historyStep s')) (replicate n transparent)
      = canvas s'"
    unfolding f(3,4) u c' using rendered_plain [OF pl', of img "replicate n transparent"] li
    by simp
  have hi': "history_inv s'" using hi assms(2,3) unfolding history_inv_def f by simp
  have "pen_inv n s'"
    unfolding pen_inv_def using pl' r' hi' assms(1) c' li
    by (simp add: f(3,5,6) pen_inv_def)
  with f show ?thesis by simp
qed

lemma undo_step:
  assumes "pen_inv n s" and "0 < historyStep s"
  shows "pen_inv n (undo_settled s) \<and> history (undo_settled s) = history s
    \<and> historyStep (undo_settled s) = historyStep s - 1
    \<and> notifications (undo_settled s) = Undone # notifications s"
proof -
  have "history_inv s" using assms(1) by (simp add: pen_inv_def)
  then have "0 \<le> historyStep s - 1" "historyStep s - 1 < int (length (history s))"
    using assms(2) by (simp_all add: history_inv_def)
  from pen_inv_move [OF assms(1) this, of Undone] show ?thesis
    using assms(2) by (simp add: undo_settled_def undoLast_def Let_def)
qed

lemma redo_step:
  assumes "pen_inv n s" and "historyStep s < int (length (history s)) - 1"
  shows "pen_inv n (redo_settled s) \<and> history (redo_settled s) = history s
    \<and> historyStep (redo_settled s) = historyStep s + 1
    \<and> notifications (redo_settled s) = Redone # notifications s"
proof -
  have "history_inv s" using assms(1) by (simp add: pen_inv_def)
  then have "0 \<le> historyStep s + 1" "historyStep s + 1 < int (length (history s))"
    using assms(2) by (simp_all add: history_inv_def)
  from pen_inv_move [OF assms(1) this, of Redone] show ?thesis
    using assms(2) by (simp add: redo_settled_def redoLast_def Let_def)
qed

lemma undo_steps:
  assumes "pen_inv n s" and "int k \<le> historyStep s"
  shows "pen_inv n ((undo_settled ^^ k) s) \<and> history ((undo_settled ^^ k) s) = history s
    \<and> historyStep ((undo_settled ^^ k) s) = historyStep s - int k
    \<and> notifications ((undo_settled ^^ k) s) = replicate k Undone @ notifications s"
  using assms(2)
proof (induction k)
  case 0
  then show ?case using assms(1) by simp
next
  case (Suc k)
  let ?t = "(undo_settled ^^ k) s"
  from Suc have t: "pen_inv n ?t" "history ?t = history s"
    "historyStep ?t = historyStep s - int k"
    "notifications ?t = replicate k Undone @ notifications s"
    by simp_all
  have "0 < historyStep ?t" using t(3) Suc.prems by simp
  from undo_step [OF t(1) this] t show ?case by simp
qed

lemma redo_steps:
  assumes "pen_inv n s" and "historyStep s + int k \<le> int (length (history s)) - 1"
  shows "pen_inv n ((redo_settled ^^ k) s) \<and> history ((redo_settled ^^ k) s) = history s
    \<and> historyStep ((redo_settled ^^ k) s) = historyStep s + int k
    \<and> notifications ((redo_settled ^^ k) s) = replicate k Redone @ notifications s"
  using assms(2)
proof (induction k)
  case 0
  then show ?case using assms(1) by simp
next
  case (Suc k)
  let ?t = "(redo_settled ^^ k) s"
  from Suc have t: "pen_inv n ?t" "history ?t = history s"
    "historyStep ?t = historyStep s + int k"
    "notifications ?t = replicate k Redone @ notifications s"
    by simp_all
  have "historyStep ?t < int (length (history ?t)) - 1" using t(2,3) Suc.prems by simp
  from redo_step [OF t(1) this] t show ?case by simp
qed

lemma strokes_run:
  assumes "pen_inv n s" and "historyStep s = int (length (history s)) - 1"
    and "historyStep s + int (length strokes) \<le> 49"
  shows "\<exists>s'. run (concat (map stroke_events strokes)) s = Inr s' \<and> pen_inv n s'
           \<and> historyStep s' = historyStep s + int (length strokes)
           \<and> historyStep s' = int (length (history s')) - 1
           \<and> history s' ! 0 = history s ! 0
           \<and> notifications s' = notifications s"
  using assms
proof (induction strokes arbitrary: s)
  case Nil
  then show ?case by simp
next
  case (Cons paths strokes)
  have "historyStep s < 49" using Cons.prems(3) by simp
  from stroke_step [OF Cons.prems(1) this, of paths] obtain s1 where
    s1: "run (stroke_events paths) s = Inr s1" "pen_inv n s1"
      "historyStep s1 = historyStep s + 1"
      "length (history s1) = nat (historyStep s) + 2"
      "take (nat (historyStep s) + 1) (history s1) = take (nat (historyStep s) + 1) (history s)"
      "notifications s1 = notifications s"
    by blast
  have "history_inv s" using Cons.prems(1) by (simp add: pen_inv_def)
  then have b: "0 \<le> historyStep s" by (simp add: history_inv_def)
  have e: "historyStep s1 = int (length (history s1)) - 1" using s1(3,4) b by simp
  have "historyStep s1 + int (length strokes) \<le> 49" using s1(3) Cons.prems(3) by simp
  from Cons.IH [OF s1(2) e this] obtain s' where
    s': "run (concat (map stroke_events strokes)) s1 = Inr s'" "pen_inv n s'"
      "historyStep s' = historyStep s1 + int (length strokes)"
      "historyStep s' = int (length (history s')) - 1"
      "history s' ! 0 = history s1 ! 0"
      "notifications s' = notifications s1"
    by blast
  have "take (nat (historyStep s) + 1) (history s1) ! 0
      = take (nat (historyStep s) + 1) (history s) ! 0"
    using s1(5) by simp
  then have z: "history s1 ! 0 = history s ! 0" by simp
  have "run (concat (map stroke_events (paths # strokes))) s = Inr s'"
    using s1(1) s'(1) by (simp add: run_append)
  moreover have "historyStep s' = historyStep s + int (length (paths # strokes))"
    using s'(3) s1(3) by simp
  ultimately show ?case using s'(2,4,5,6) z s1(6) by (intro exI [of _ s']) simp
qed

lemma over_white_transparent: "over_white transparent = solid white"
  by (simp add: over_white_def transparent_def alpha_def scale_def plus_pixel_def solid_def white_def)

lemma loadSavedSignature_loading:
  "loading s = [] \<Longrightarrow> list_all is_signature_load (loading (loadSavedSignature saved s))"
  by (simp add: loadSavedSignature_def split: option.splits)

lemma new_PrescriptionCanvas_pen_inv:
  "\<exists>s0. new_PrescriptionCanvas n m saved = Inr s0 \<and> pen_inv n s0 \<and> historyStep s0 = 0
     \<and> history s0 = [toDataURL (replicate n transparent)]
     \<and> canvas s0 = replicate n (solid white) \<and> notifications s0 = []"
proof -
  let ?c = "getContext\<lparr>lineCap := ''round'', lineJoin := ''round'', fillStyle := white\<rparr>"
  let ?r = "\<lparr>canvas = replicate n (solid white), ctx = ?c,
        signatureCanvas = replicate m (solid white), signatureCtx = ?c,
        isDrawing = False, currentTool = pen, currentColor = black, currentSize = Some 2,
        pages = [toDataURL (replicate n transparent)], currentPageIndex = 0,
        history = [toDataURL (replicate n transparent)], historyStep = 0,
        savedSignature = None, loading = [], notifications = []\<rparr>"
  let ?s0 = "loadSavedSignature saved ?r"
  have r: "new_PrescriptionCanvas n m saved = Inr ?s0" by (rule new_PrescriptionCanvas_result)
  obtain s where s: "new_PrescriptionCanvas n m saved = Inr s" "history_inv s"
    using new_PrescriptionCanvas_inv by blast
  with r have hi: "history_inv ?s0" by simp
  have f: "history ?s0 = [toDataURL (replicate n transparent)]" "historyStep ?s0 = 0"
    "canvas ?s0 = replicate n (solid white)" "ctx ?s0 = ?c" "currentTool ?s0 = pen"
    "notifications ?s0 = []"
    by (simp_all add: loadSavedSignature_fields)
  have l: "list_all is_signature_load (loading ?s0)"
    by (rule loadSavedSignature_loading) simp
  have pl: "plain ?c" by (simp add: plain_def getContext_def)
  have rd: "rendered ?c (Png (replicate n transparent)) (replicate n transparent)
      = replicate n (solid white)"
    using rendered_plain [OF pl, of "replicate n transparent" "replicate n transparent"]
    by (simp add: over_white_transparent)
  have "pen_inv n ?s0"
    unfolding pen_inv_def f using pl l hi rd
    by (simp add: js_index_def toDataURL_def)
  with r f show ?thesis by blast
qed

text \<open>
  C3, as amended. For every list of at most 49 strokes drawn from the start with the pen,
  the tool selected at start-up, on a canvas of any size: the session runs, as many undos
  as there were strokes all succeed and leave the canvas as it was at the start, filled
  white; as many redos then all succeed and leave the canvas as it was after the last
  stroke.
\<close>

theorem strokes_undone_and_redone:
  assumes "length strokes \<le> 49"
  shows "\<exists>s0 s. new_PrescriptionCanvas n m saved = Inr s0
     \<and> run (concat (map stroke_events strokes)) s0 = Inr s
     \<and> canvas s0 = replicate n (solid white)
     \<and> canvas ((undo_settled ^^ length strokes) s) = canvas s0
     \<and> notifications ((undo_settled ^^ length strokes) s)
         = replicate (length strokes) Undone @ notifications s
     \<and> canvas ((redo_settled ^^ length strokes) ((undo_settled ^^ length strokes) s)) = canvas s
     \<and> notifications ((redo_settled ^^ length strokes) ((undo_settled ^^ length strokes) s))
         = replicate (length strokes) Redone @ replicate (length strokes) Undone @ notifications s"
proof -
  let ?N = "length strokes"
  obtain s0 where s0: "new_PrescriptionCanvas n m saved = Inr s0" "pen_inv n s0"
    "historyStep s0 = 0" "history s0 = [toDataURL (replicate n transparent)]"
    "canvas s0 = replicate n (solid white)"
    using new_PrescriptionCanvas_pen_inv by blast
  have "historyStep s0 = int (length (history s0)) - 1" using s0(3,4) by simp
  moreover have "historyStep s0 + int ?N \<le> 49" using s0(3) assms by simp
  ultimately obtain s where s: "run (concat (map stroke_events strokes)) s0 = Inr s"
    "pen_inv n s" "historyStep s = historyStep s0 + int ?N"
    "historyStep s = int (length (history s)) - 1" "history s ! 0 = history s0 ! 0"
    using strokes_run [OF s0(2), of strokes] by blast
  let ?u = "(undo_settled ^^ ?N) s"
  have "int ?N \<le> historyStep s" using s(3) s0(3) by simp
  from undo_steps [OF s(2) this] have u: "pen_inv n ?u" "history ?u = history s"
    "historyStep ?u = 0" "notifications ?u = replicate ?N Undone @ notifications s"
    using s(3) s0(3) by simp_all
  let ?r = "(redo_settled ^^ ?N) ?u"
  have "historyStep ?u + int ?N \<le> int (length (history ?u)) - 1"
    using u(2,3) s(3,4) s0(3) by simp
  from redo_steps [OF u(1) this] have r: "pen_inv n ?r" "history ?r = history s"
    "historyStep ?r = historyStep s" "notifications ?r = replicate ?N Redone @ notifications ?u"
    using u(2,3) s(3) s0(3) by simp_all
  have cu: "canvas ?u = canvas s0"
  proof -
    from pen_inv_canvas [OF u(1)] obtain img where
      "js_index (history ?u) (historyStep ?u) = Png img" "canvas ?u = map over_white img"
      by blast
    moreover have "history_inv s" using s(2) by (simp add: pen_inv_def)
    then have "0 < length (history s)" by (auto simp add: history_inv_def)
    then have "js_index (history s) 0 = history s ! 0"
      by (simp add: js_index_def)
    ultimately have "img = replicate n transparent"
      using u(2,3) s(5) s0(4) by (simp add: toDataURL_def)
    then show ?thesis
      using \<open>canvas ?u = map over_white img\<close> s0(5) by (simp add: over_white_transparent)
  qed
  have cr: "canvas ?r = canvas s"
  proof -
    from pen_inv_canvas [OF r(1)] obtain img where
      a: "js_index (history ?r) (historyStep ?r) = Png img" "canvas ?r = map over_white img"
      by blast
    from pen_inv_canvas [OF s(2)] obtain img' where
      b: "js_index (history s) (historyStep s) = Png img'" "canvas s = map over_white img'"
      by blast
    from a(1) b(1) r(2,3) have "img = img'" by simp
    with a(2) b(2) show ?thesis by simp
  qed
  from s0(1,5) s(1) cu u(4) cr r(4) show ?thesis by (intro exI [of _ s0] exI [of _ s]) simp
qed

theorem strokes_undone_and_redone_witness:
  "length [[[solid black]], [[solid white], [solid (1, 0, 0)]]] \<le> 49
   \<and> session 1 1 None (concat (map stroke_events [[[solid black]], [[solid white], [solid (1, 0, 0)]]]))
       = Inr (example (concat (map stroke_events [[[solid black]], [[solid white], [solid (1, 0, 0)]]])))
   \<and> canvas (example []) = [solid white]
   \<and> canvas (example (concat (map stroke_events [[[solid black]], [[solid white], [solid (1, 0, 0)]]])))
       = [solid (1, 0, 0)]
   \<and> canvas (undo_settled
        (example (concat (map stroke_events [[[solid black]], [[solid white], [solid (1, 0, 0)]]]))))
       = [solid black]
   \<and> canvas ((undo_settled ^^ 2)
        (example (concat (map stroke_events [[[solid black]], [[solid white], [solid (1, 0, 0)]]]))))
       = [solid white]
   \<and> notifications ((undo_settled ^^ 2)
        (example (concat (map stroke_events [[[solid black]], [[solid white], [solid (1, 0, 0)]]]))))
       = [Undone, Undone]
   \<and> canvas ((redo_settled ^^ 2) ((undo_settled ^^ 2)
        (example (concat (map stroke_events [[[solid black]], [[solid white], [solid (1, 0, 0)]]])))))
       = [solid (1, 0, 0)]
   \<and> notifications ((redo_settled ^^ 2) ((undo_settled ^^ 2)
        (example (concat (map stroke_events [[[solid black]], [[solid white], [solid (1, 0, 0)]]])))))
       = [Redone, Redone, Undone, Undone]"
proof -
  let ?strokes = "[[[solid black]], [[solid white], [solid (1, 0, 0)]]]"
  let ?es = "concat (map stroke_events ?strokes)"
  have l: "length ?strokes \<le> 49" by simp
  from strokes_undone_and_redone [OF l, of 1 1 None] obtain s0 s where
    r: "new_PrescriptionCanvas 1 1 None = Inr s0" "run ?es s0 = Inr s"
      "canvas s0 = replicate 1 (solid white)"
      "canvas ((undo_settled ^^ length ?strokes) s) = canvas s0"
      "notifications ((undo_settled ^^ length ?strokes) s)
         = replicate (length ?strokes) Undone @ notifications s"
      "canvas ((redo_settled ^^ length ?strokes) ((undo_settled ^^ length ?strokes) s)) = canvas s"
      "notifications ((redo_settled ^^ length ?strokes) ((undo_settled ^^ length ?strokes) s))
         = replicate (length ?strokes) Redone @ replicate (length ?strokes) Undone
             @ notifications s"
    by blast
  have s0: "example [] = s0" using r(1) by (simp add: example_def session_def)
  have ses: "session 1 1 None ?es = Inr s" using r(1,2) by (simp add: session_def)
  then have s: "example ?es = s" by (simp add: example_def)
  have c: "canvas (example ?es) = [solid (1, 0, 0)]"
    "canvas (undo_settled (example ?es)) = [solid black]"
    "notifications (example ?es) = []"
    by code_simp+
  have two: "length ?strokes = 2" by simp
  from l ses r(3-7) c show ?thesis
    unfolding s s0 two by (simp add: numeral_2_eq_2)
qed

section \<open>Fifty strokes\<close>

lemma strokes_prefix:
  assumes "pen_inv n s" and "historyStep s = int (length (history s)) - 1"
    and "historyStep s + int (length strokes) \<le> 49"
    and "run (concat (map stroke_events strokes)) s = Inr s'"
  shows "take (length (history s)) (history s') = history s"
  using assms
proof (induction strokes arbitrary: s)
  case Nil
  then show ?case by simp
next
  case (Cons paths strokes)
  have "historyStep s < 49" using Cons.prems(3) by simp
  from stroke_step [OF Cons.prems(1) this, of paths] obtain s1 where
    s1: "run (stroke_events paths) s = Inr s1" "pen_inv n s1"
      "historyStep s1 = historyStep s + 1"
      "length (history s1) = nat (historyStep s) + 2"
      "take (nat (historyStep s) + 1) (history s1) = take (nat (historyStep s) + 1) (history s)"
    by blast
  have "history_inv s" using Cons.prems(1) by (simp add: pen_inv_def)
  then have b: "0 \<le> historyStep s" by (simp add: history_inv_def)
  then have l: "nat (historyStep s) + 1 = length (history s)" using Cons.prems(2) by arith
  have e: "historyStep s1 = int (length (history s1)) - 1" using s1(3,4) b by simp
  have c: "historyStep s1 + int (length strokes) \<le> 49" using s1(3) Cons.prems(3) by simp
  have r: "run (concat (map stroke_events strokes)) s1 = Inr s'"
    using Cons.prems(4) s1(1) by (simp add: run_append)
  from Cons.IH [OF s1(2) e c r] have i: "take (length (history s1)) (history s') = history s1" .
  have "take (length (history s)) (history s')
      = take (length (history s)) (take (length (history s1)) (history s'))"
    using l s1(4) by (simp add: min_def)
  also have "\<dots> = take (length (history s)) (history s1)" using i by simp
  also have "\<dots> = history s" using s1(5) l by simp
  finally show ?case .
qed

text \<open>A stroke with the pen when the cursor is at index 49: the oldest snapshot goes.\<close>

lemma stroke_step_full:
  assumes "pen_inv n s" and "historyStep s = 49"
  shows "\<exists>s'. run (stroke_events paths) s = Inr s' \<and> pen_inv n s'
           \<and> historyStep s' = 49
           \<and> history s' = tl (history s) @ [toDataURL (canvas s')]
           \<and> notifications s' = notifications s"
proof -
  let ?s1 = "startDrawing False s"
  have s1: "?s1 = s\<lparr>isDrawing := True, ctx := setDrawingProperties (s\<lparr>isDrawing := True\<rparr>) (ctx s)\<rparr>"
    by (simp add: startDrawing_def Let_def)
  have tool: "currentTool s = pen" using assms(1) by (simp add: pen_inv_def)
  have p1: "plain (ctx ?s1)" unfolding s1 using tool by (simp add: plain_pen)
  have "isDrawing ?s1" "list_all opaque (canvas ?s1)"
    unfolding s1 using pen_inv_opaque [OF assms(1)] by simp_all
  from run_moves [OF this(1) p1 this(2), of paths] obtain bm where
    bm: "run (map (MouseMove False) paths) ?s1 = Inr (?s1\<lparr>canvas := bm\<rparr>)"
      "list_all opaque bm" "length bm = length (canvas ?s1)"
    by blast
  have lbm: "length bm = n" using bm(3) assms(1) unfolding s1 by (simp add: pen_inv_def)
  let ?s2 = "?s1\<lparr>canvas := bm\<rparr>"
  let ?s3 = "?s2\<lparr>isDrawing := False\<rparr>"
  have hi: "history_inv s" using assms(1) by (simp add: pen_inv_def)
  then have len: "length (history s) = 50" using assms(2) by (simp add: history_inv_def)
  have f3: "history ?s3 = history s" "historyStep ?s3 = historyStep s" "canvas ?s3 = bm"
    "loading ?s3 = loading s" "currentTool ?s3 = pen" "notifications ?s3 = notifications s"
    "ctx ?s3 = ctx ?s1"
    unfolding s1 using tool by simp_all
  have hi3: "history_inv ?s3" using hi f3(1,2) by (simp add: history_inv_def)
  let ?s' = "?s3\<lparr>historyStep := historyStep s, history := tl (pushed ?s3),
      pages := js_assign (pages ?s3) (currentPageIndex ?s3) (toDataURL (canvas ?s3))\<rparr>"
  have sv: "saveState ?s3 = Inr ?s'"
    using saveState_history_inv [OF hi3] assms(2) f3(2) by simp
  have pu: "pushed ?s3 = history s @ [Png bm]"
    unfolding pushed_def f3 using assms(2) len by (simp add: toDataURL_def)
  have ne: "history s \<noteq> []" using len by auto
  have tp: "tl (pushed ?s3) = tl (history s) @ [Png bm]" unfolding pu using ne by simp
  have stop: "stopDrawing False ?s2 = Inr ?s'"
    using sv by (simp add: stopDrawing_def Let_def s1)
  have run: "run (stroke_events paths) s = Inr ?s'"
    unfolding stroke_events_def using bm(1) stop by (simp add: run_append)
  have f': "history ?s' = tl (pushed ?s3)" "historyStep ?s' = 49" "canvas ?s' = bm"
    "loading ?s' = loading s" "currentTool ?s' = pen" "notifications ?s' = notifications s"
    "ctx ?s' = ctx ?s1"
    unfolding s1 using tool assms(2) by simp_all
  have ix: "js_index (history ?s') (historyStep ?s') = Png bm"
  proof -
    have "length (tl (history s)) = 49" using len by simp
    then have "(tl (history s) @ [Png bm]) ! 49 = Png bm" by (simp add: nth_append)
    then show ?thesis unfolding f' tp js_index_def using len assms(2) by simp
  qed
  have hi': "history_inv ?s'"
    using history_inv_saveState [OF hi3] sv by simp
  have sz: "list_all (snapshot_of_size n) (tl (pushed ?s3))"
  proof -
    have "list_all (snapshot_of_size n) (history s)" using assms(1) by (simp add: pen_inv_def)
    then have "list_all (snapshot_of_size n) (tl (history s))" by (rule list_all_tl)
    then show ?thesis unfolding tp using lbm by simp
  qed
  have rd: "rendered (ctx ?s') (js_index (history ?s') (historyStep ?s')) (replicate n transparent)
      = canvas ?s'"
  proof -
    have "plain (ctx ?s')" unfolding f' using p1 .
    from rendered_plain [OF this, of bm "replicate n transparent"] lbm
    have "rendered (ctx ?s') (Png bm) (replicate n transparent) = map over_white bm" by simp
    also have "\<dots> = bm" using bm(2) by (rule map_over_white_opaque)
    finally show ?thesis unfolding ix f'(3) .
  qed
  have pi: "pen_inv n ?s'"
    unfolding pen_inv_def
    using p1 hi' sz rd lbm assms(1) unfolding f' by (simp add: pen_inv_def)
  have h': "history ?s' = tl (history s) @ [toDataURL (canvas ?s')]"
    unfolding f'(1,3) tp by (simp add: toDataURL_def)
  from run pi f'(2) h' f'(6) show ?thesis by blast
qed

lemma settle_signature_fields:
  assumes "list_all is_signature_load (loading t)"
  shows "canvas (settle t) = canvas t" and "notifications (settle t) = notifications t"
  using fold_signature_fields [OF assms, of "t\<lparr>loading := []\<rparr>"]
  by (simp_all add: settle_def)

lemma undo_at_start:
  assumes "pen_inv n s" and "historyStep s = 0"
  shows "canvas (undo_settled s) = canvas s"
    and "notifications (undo_settled s) = Nothing_to_undo # notifications s"
proof -
  have u: "undoLast s = showNotification Nothing_to_undo s"
    using assms(2) by (simp add: undoLast_def)
  have "list_all is_signature_load (loading (showNotification Nothing_to_undo s))"
    using assms(1) by (simp add: pen_inv_def showNotification_def)
  from settle_signature_fields [OF this]
  show "canvas (undo_settled s) = canvas s"
    and "notifications (undo_settled s) = Nothing_to_undo # notifications s"
    unfolding undo_settled_def u by (simp_all add: showNotification_def)
qed

text \<open>
  C3 as stated fails at 50 strokes: the history keeps 50 snapshots, the one taken at
  start-up included, so after the fiftieth stroke the oldest snapshot left is that of the
  first stroke; the fiftieth undo fails and the canvas still shows the first stroke.
\<close>

theorem fifty_strokes_not_undone:
  "session 1 1 None (concat (map stroke_events (replicate 50 [[solid black]])))
     = Inr (example (concat (map stroke_events (replicate 50 [[solid black]]))))
   \<and> canvas (example []) = [solid white]
   \<and> canvas ((undo_settled ^^ 50)
        (example (concat (map stroke_events (replicate 50 [[solid black]]))))) = [solid black]
   \<and> hd (notifications ((undo_settled ^^ 50)
        (example (concat (map stroke_events (replicate 50 [[solid black]])))))) = Nothing_to_undo"
proof -
  let ?x = "[[solid black]]"
  let ?es = "\<lambda>k. concat (map stroke_events (replicate k ?x))"
  obtain s0 where s0: "new_PrescriptionCanvas 1 1 None = Inr s0" "pen_inv 1 s0"
    "historyStep s0 = 0" "history s0 = [toDataURL (replicate 1 transparent)]"
    using new_PrescriptionCanvas_pen_inv [of 1 1 None] by blast
  have ses: "session 1 1 None es = run es s0" for es
    using s0(1) by (simp add: session_def)
  \<comment> \<open>the first stroke\<close>
  have "historyStep s0 < 49" using s0(3) by simp
  from stroke_step [OF s0(2) this, of ?x] obtain s1 where
    s1: "run (stroke_events ?x) s0 = Inr s1" "pen_inv 1 s1"
      "historyStep s1 = 1" "length (history s1) = 2"
      "js_index (history s1) (historyStep s1) = toDataURL (canvas s1)"
    using s0(3) by auto
  have "example (stroke_events ?x) = s1"
    unfolding example_def ses using s1(1) by simp
  moreover have "canvas (example (stroke_events ?x)) = [solid black]" by code_simp
  ultimately have c1: "canvas s1 = [solid black]" by simp
  have h1: "history s1 ! 1 = Png [solid black]"
    using s1(3,4,5) c1 by (simp add: js_index_def toDataURL_def)
  \<comment> \<open>48 more\<close>
  have e1: "historyStep s1 = int (length (history s1)) - 1" using s1(3,4) by simp
  have b1: "historyStep s1 + int (length (replicate 48 ?x)) \<le> 49" using s1(3) by simp
  from strokes_run [OF s1(2) e1 b1] obtain s49 where
    s49: "run (?es 48) s1 = Inr s49" "pen_inv 1 s49" "historyStep s49 = 49"
      "historyStep s49 = int (length (history s49)) - 1"
    using s1(3) by auto
  from strokes_prefix [OF s1(2) e1 b1 s49(1)] s1(4)
  have "take 2 (history s49) = history s1" by simp
  then have "take 2 (history s49) ! 1 = history s1 ! 1" by simp
  then have h49: "history s49 ! 1 = Png [solid black]" using h1 by simp
  have l49: "length (history s49) = 50" using s49(3,4) by simp
  \<comment> \<open>the fiftieth\<close>
  from stroke_step_full [OF s49(2,3), of ?x] obtain s50 where
    s50: "run (stroke_events ?x) s49 = Inr s50" "pen_inv 1 s50" "historyStep s50 = 49"
      "history s50 = tl (history s49) @ [toDataURL (canvas s50)]"
    by blast
  have "history s50 ! 0 = tl (history s49) ! 0"
    unfolding s50(4) using l49 by (simp add: nth_append)
  also have "\<dots> = history s49 ! 1" using l49 by (simp add: nth_tl)
  finally have h50: "history s50 ! 0 = Png [solid black]" using h49 by simp
  have "replicate 50 ?x = ?x # replicate 48 ?x @ [?x]"
  proof -
    have "(50::nat) = Suc 49" "(49::nat) = Suc 48" by simp_all
    then have "replicate 50 ?x = ?x # ?x # replicate 48 ?x"
      by (simp only: replicate.simps)
    also have "?x # replicate 48 ?x = replicate 48 ?x @ [?x]"
      by (simp only: replicate_append_same)
    finally show ?thesis .
  qed
  then have "?es 50 = stroke_events ?x @ ?es 48 @ stroke_events ?x" by simp
  then have run50: "run (?es 50) s0 = Inr s50"
    using s1(1) s49(1) s50(1) by (simp add: run_append)
  then have ex: "example (?es 50) = s50" unfolding example_def ses by simp
  \<comment> \<open>49 undos succeed, the next one does not\<close>
  let ?u = "(undo_settled ^^ 49) s50"
  have "int 49 \<le> historyStep s50" using s50(3) by simp
  from undo_steps [OF s50(2) this] have u: "pen_inv 1 ?u" "history ?u = history s50"
    "historyStep ?u = 0"
    using s50(3) by simp_all
  from pen_inv_canvas [OF u(1)] obtain img where
    img: "js_index (history ?u) (historyStep ?u) = Png img" "canvas ?u = map over_white img"
    by blast
  have "0 < length (history s50)" unfolding s50(4) by simp
  then have "js_index (history ?u) (historyStep ?u) = Png [solid black]"
    unfolding u(2,3) using h50 by (simp add: js_index_def)
  with img(1) have "img = [solid black]" by simp
  with img(2) have cu: "canvas ?u = [over_white (solid black)]" by simp
  have "opaque (solid black)" by (simp add: opaque_def alpha_def solid_def black_def)
  then have cu': "canvas ?u = [solid black]" using cu by (simp add: over_white_opaque)
  have "(undo_settled ^^ 50) s50 = undo_settled ?u"
  proof -
    have "(50::nat) = Suc 49" by simp
    then show ?thesis by (simp only: funpow.simps o_apply)
  qed
  with undo_at_start [OF u(1,3)] cu'
  have f: "canvas ((undo_settled ^^ 50) s50) = [solid black]"
    "hd (notifications ((undo_settled ^^ 50) s50)) = Nothing_to_undo"
    by simp_all
  have w: "canvas (example []) = [solid white]" by code_simp
  have r: "session 1 1 None (?es 50) = Inr (example (?es 50))" by (rule session_example) (simp add: events)
  from r f w show ?thesis unfolding ex by blast
qed

section \<open>Loading a snapshot while a tool other than the pen is selected\<close>

text \<open>
  \<^verbatim>\<open>loadCanvasState\<close>, \<^verbatim>\<open>loadPage\<close>, \<^verbatim>\<open>clearCanvas\<close> and \<^verbatim>\<open>addPage\<close> fill and draw
  through the context of the prescription canvas as \<^verbatim>\<open>setDrawingProperties\<close> left it:
  none of them assigns \<^verbatim>\<open>globalAlpha\<close> or \<^verbatim>\<open>globalCompositeOperation\<close>. With the
  eraser selected both the white fill and the image are composed destination-out, so
  the canvas ends up transparent whatever the snapshot holds.
\<close>

text \<open>
  C4, where the code departs from it. Two strokes paint the pixel black, the eraser is
  selected and the last stroke undone: the undo succeeds and the cursor moves to 1, where
  the history holds the black snapshot, but the canvas is transparent. One stroke undone
  with the pen, the eraser selected and the stroke redone: the redo succeeds and the
  cursor moves to 1, the black snapshot, and the canvas is transparent. With the pen
  left selected the same undo shows the black snapshot.
\<close>

theorem undo_with_eraser_loses_snapshot:
  "session 1 1 None (stroke @ stroke @ [SetTool eraser] @ undo)
     = Inr (example (stroke @ stroke @ [SetTool eraser] @ undo))
   \<and> hd (notifications (example (stroke @ stroke @ [SetTool eraser] @ undo))) = Undone
   \<and> historyStep (example (stroke @ stroke @ [SetTool eraser] @ undo)) = 1
   \<and> history (example (stroke @ stroke @ [SetTool eraser] @ undo)) ! 1 = toDataURL [solid black]
   \<and> loading (example (stroke @ stroke @ [SetTool eraser] @ undo)) = []
   \<and> canvas (example (stroke @ stroke @ [SetTool eraser] @ undo)) = [transparent]
   \<and> session 1 1 None (stroke @ undo @ [SetTool eraser] @ redo)
     = Inr (example (stroke @ undo @ [SetTool eraser] @ redo))
   \<and> hd (notifications (example (stroke @ undo @ [SetTool eraser] @ redo))) = Redone
   \<and> historyStep (example (stroke @ undo @ [SetTool eraser] @ redo)) = 1
   \<and> history (example (stroke @ undo @ [SetTool eraser] @ redo)) ! 1 = toDataURL [solid black]
   \<and> loading (example (stroke @ undo @ [SetTool eraser] @ redo)) = []
   \<and> canvas (example (stroke @ undo @ [SetTool eraser] @ redo)) = [transparent]
   \<and> canvas (example (stroke @ stroke @ undo)) = [solid black]"
proof -
  have "session 1 1 None (stroke @ stroke @ [SetTool eraser] @ undo)
     = Inr (example (stroke @ stroke @ [SetTool eraser] @ undo))"
    "session 1 1 None (stroke @ undo @ [SetTool eraser] @ redo)
     = Inr (example (stroke @ undo @ [SetTool eraser] @ redo))"
    by (rule session_example, simp add: events)+
  moreover have
    "hd (notifications (example (stroke @ stroke @ [SetTool eraser] @ undo))) = Undone"
    "historyStep (example (stroke @ stroke @ [SetTool eraser] @ undo)) = 1"
    "history (example (stroke @ stroke @ [SetTool eraser] @ undo)) ! 1 = toDataURL [solid black]"
    "loading (example (stroke @ stroke @ [SetTool eraser] @ undo)) = []"
    "canvas (example (stroke @ stroke @ [SetTool eraser] @ undo)) = [transparent]"
    by code_simp+
  moreover have
    "hd (notifications (example (stroke @ undo @ [SetTool eraser] @ redo))) = Redone"
    "historyStep (example (stroke @ undo @ [SetTool eraser] @ redo)) = 1"
    "history (example (stroke @ undo @ [SetTool eraser] @ redo)) ! 1 = toDataURL [solid black]"
    "loading (example (stroke @ undo @ [SetTool eraser] @ redo)) = []"
    "canvas (example (stroke @ undo @ [SetTool eraser] @ redo)) = [transparent]"
    "canvas (example (stroke @ stroke @ undo)) = [solid black]"
    by code_simp+
  ultimately show ?thesis by simp
qed

text \<open>
  C9, where the code departs from it. A stroke paints the pixel black, a stroke with the
  eraser removes it, and that stroke is undone: the undo succeeds and the slot of the
  active page holds the restored snapshot, which is black, but the canvas is transparent,
  so the slot does not match the canvas. The same after the redo of a stroke that was
  undone with the pen, the eraser selected in between.
\<close>

theorem undo_with_eraser_slot_differs_from_canvas:
  "session 1 1 None (stroke @ [SetTool eraser] @ stroke @ undo)
     = Inr (example (stroke @ [SetTool eraser] @ stroke @ undo))
   \<and> hd (notifications (example (stroke @ [SetTool eraser] @ stroke @ undo))) = Undone
   \<and> loading (example (stroke @ [SetTool eraser] @ stroke @ undo)) = []
   \<and> currentPageIndex (example (stroke @ [SetTool eraser] @ stroke @ undo)) = 0
   \<and> pages (example (stroke @ [SetTool eraser] @ stroke @ undo)) = [toDataURL [solid black]]
   \<and> toDataURL (canvas (example (stroke @ [SetTool eraser] @ stroke @ undo)))
       = toDataURL [transparent]
   \<and> session 1 1 None (stroke @ undo @ [SetTool eraser, RedoLast, ImageLoaded 0])
     = Inr (example (stroke @ undo @ [SetTool eraser, RedoLast, ImageLoaded 0]))
   \<and> hd (notifications (example (stroke @ undo @ [SetTool eraser, RedoLast, ImageLoaded 0])))
       = Redone
   \<and> pages (example (stroke @ undo @ [SetTool eraser, RedoLast, ImageLoaded 0]))
       = [toDataURL [solid black]]
   \<and> toDataURL (canvas (example (stroke @ undo @ [SetTool eraser, RedoLast, ImageLoaded 0])))
       = toDataURL [transparent]"
proof -
  have "session 1 1 None (stroke @ [SetTool eraser] @ stroke @ undo)
     = Inr (example (stroke @ [SetTool eraser] @ stroke @ undo))"
    "session 1 1 None (stroke @ undo @ [SetTool eraser, RedoLast, ImageLoaded 0])
     = Inr (example (stroke @ undo @ [SetTool eraser, RedoLast, ImageLoaded 0]))"
    by (rule session_example, simp add: events)+
  moreover have
    "hd (notifications (example (stroke @ [SetTool eraser] @ stroke @ undo))) = Undone"
    "loading (example (stroke @ [SetTool eraser] @ stroke @ undo)) = []"
    "currentPageIndex (example (stroke @ [SetTool eraser] @ stroke @ undo)) = 0"
    "pages (example (stroke @ [SetTool eraser] @ stroke @ undo)) = [toDataURL [solid black]]"
    "toDataURL (canvas (example (stroke @ [SetTool eraser] @ stroke @ undo)))
       = toDataURL [transparent]"
    by code_simp+
  moreover have
    "hd (notifications (example (stroke @ undo @ [SetTool eraser, RedoLast, ImageLoaded 0])))
       = Redone"
    "pages (example (stroke @ undo @ [SetTool eraser, RedoLast, ImageLoaded 0]))
       = [toDataURL [solid black]]"
    "toDataURL (canvas (example (stroke @ undo @ [SetTool eraser, RedoLast, ImageLoaded 0])))
       = toDataURL [transparent]"
    by code_simp+
  ultimately show ?thesis by simp
qed

text \<open>
  C6, where the code departs from it. A stroke paints the first page black, a second page
  is added, the eraser is selected and the second page deleted: the page list is left
  with the first page, whose slot holds the black snapshot, the active index is 0 and the
  image of that page has loaded, but the canvas is transparent. With the pen left
  selected the canvas shows the black page.
\<close>

theorem deletePage_with_eraser_loses_page:
  "session 1 1 None (stroke @ [AddPage, SetTool eraser, DeletePage, ImageLoaded 0])
     = Inr (example (stroke @ [AddPage, SetTool eraser, DeletePage, ImageLoaded 0]))
   \<and> pages (example (stroke @ [AddPage, SetTool eraser])) = [toDataURL [solid black], toDataURL [solid white]]
   \<and> currentPageIndex (example (stroke @ [AddPage, SetTool eraser])) = 1
   \<and> hd (notifications (example (stroke @ [AddPage, SetTool eraser, DeletePage, ImageLoaded 0])))
       = Page_deleted 2
   \<and> pages (example (stroke @ [AddPage, SetTool eraser, DeletePage, ImageLoaded 0]))
       = [toDataURL [solid black]]
   \<and> currentPageIndex (example (stroke @ [AddPage, SetTool eraser, DeletePage, ImageLoaded 0])) = 0
   \<and> loading (example (stroke @ [AddPage, SetTool eraser, DeletePage, ImageLoaded 0])) = []
   \<and> canvas (example (stroke @ [AddPage, SetTool eraser, DeletePage, ImageLoaded 0]))
       = [transparent]
   \<and> canvas (example (stroke @ [AddPage, DeletePage, ImageLoaded 0])) = [solid black]"
proof -
  have "session 1 1 None (stroke @ [AddPage, SetTool eraser, DeletePage, ImageLoaded 0])
     = Inr (example (stroke @ [AddPage, SetTool eraser, DeletePage, ImageLoaded 0]))"
    by (rule session_example) (simp add: events)
  moreover have
    "pages (example (stroke @ [AddPage, SetTool eraser])) = [toDataURL [solid black], toDataURL [solid white]]"
    "currentPageIndex (example (stroke @ [AddPage, SetTool eraser])) = 1"
    "hd (notifications (example (stroke @ [AddPage, SetTool eraser, DeletePage, ImageLoaded 0])))
       = Page_deleted 2"
    "pages (example (stroke @ [AddPage, SetTool eraser, DeletePage, ImageLoaded 0]))
       = [toDataURL [solid black]]"
    "currentPageIndex (example (stroke @ [AddPage, SetTool eraser, DeletePage, ImageLoaded 0])) = 0"
    "loading (example (stroke @ [AddPage, SetTool eraser, DeletePage, ImageLoaded 0])) = []"
    "canvas (example (stroke @ [AddPage, SetTool eraser, DeletePage, ImageLoaded 0]))
       = [transparent]"
    "canvas (example (stroke @ [AddPage, DeletePage, ImageLoaded 0])) = [solid black]"
    by code_simp+
  ultimately show ?thesis by simp
qed

text \<open>
  C7, where the code departs from it. A stroke paints the first page black, a second page
  is added, the eraser is selected and \<^verbatim>\<open>previousPage\<close> called: the white canvas is
  stored in the slot of the second page, the index moves to 0 and the image of the first
  page, which is black, loads, but the canvas is transparent. And for a slot without
  content: a file with a black page and an empty slot is imported, the eraser selected and
  \<^verbatim>\<open>nextPage\<close> called; the canvas is not filled white but left transparent, and that is
  what the slot receives. With the pen left selected the canvas shows the black page in
  the first case and is white in the second.
\<close>

theorem navigation_with_eraser_loses_page:
  "session 1 1 None (stroke @ [AddPage, SetTool eraser, PreviousPage, ImageLoaded 0])
     = Inr (example (stroke @ [AddPage, SetTool eraser, PreviousPage, ImageLoaded 0]))
   \<and> pages (example (stroke @ [AddPage, SetTool eraser, PreviousPage, ImageLoaded 0]))
       = [toDataURL [solid black], toDataURL [solid white]]
   \<and> currentPageIndex (example (stroke @ [AddPage, SetTool eraser, PreviousPage, ImageLoaded 0])) = 0
   \<and> loading (example (stroke @ [AddPage, SetTool eraser, PreviousPage, ImageLoaded 0])) = []
   \<and> canvas (example (stroke @ [AddPage, SetTool eraser, PreviousPage, ImageLoaded 0]))
       = [transparent]
   \<and> canvas (example (stroke @ [AddPage, PreviousPage, ImageLoaded 0])) = [solid black]
   \<and> session 1 1 None
       [LoadPrescription (Document (Some (JArray [toDataURL [solid black], Text ''''])) None),
        ImageLoaded 0, SetTool eraser, NextPage]
     = Inr (example
       [LoadPrescription (Document (Some (JArray [toDataURL [solid black], Text ''''])) None),
        ImageLoaded 0, SetTool eraser, NextPage])
   \<and> currentPageIndex (example
       [LoadPrescription (Document (Some (JArray [toDataURL [solid black], Text ''''])) None),
        ImageLoaded 0, SetTool eraser, NextPage]) = 1
   \<and> pages (example
       [LoadPrescription (Document (Some (JArray [toDataURL [solid black], Text ''''])) None),
        ImageLoaded 0, SetTool eraser, NextPage])
       = [toDataURL [solid black], toDataURL [transparent]]
   \<and> canvas (example
       [LoadPrescription (Document (Some (JArray [toDataURL [solid black], Text ''''])) None),
        ImageLoaded 0, SetTool eraser, NextPage]) = [transparent]
   \<and> canvas (example
       [LoadPrescription (Document (Some (JArray [toDataURL [solid black], Text ''''])) None),
        ImageLoaded 0, NextPage]) = [solid white]"
proof -
  let ?doc = "LoadPrescription (Document (Some (JArray [toDataURL [solid black], Text ''''])) None)"
  have "session 1 1 None (stroke @ [AddPage, SetTool eraser, PreviousPage, ImageLoaded 0])
     = Inr (example (stroke @ [AddPage, SetTool eraser, PreviousPage, ImageLoaded 0]))"
    "session 1 1 None [?doc, ImageLoaded 0, SetTool eraser, NextPage]
     = Inr (example [?doc, ImageLoaded 0, SetTool eraser, NextPage])"
    by (rule session_example, simp add: events)+
  moreover have
    "pages (example (stroke @ [AddPage, SetTool eraser, PreviousPage, ImageLoaded 0]))
       = [toDataURL [solid black], toDataURL [solid white]]"
    "currentPageIndex (example (stroke @ [AddPage, SetTool eraser, PreviousPage, ImageLoaded 0])) = 0"
    "loading (example (stroke @ [AddPage, SetTool eraser, PreviousPage, ImageLoaded 0])) = []"
    "canvas (example (stroke @ [AddPage, SetTool eraser, PreviousPage, ImageLoaded 0]))
       = [transparent]"
    "canvas (example (stroke @ [AddPage, PreviousPage, ImageLoaded 0])) = [solid black]"
    by code_simp+
  moreover have
    "currentPageIndex (example [?doc, ImageLoaded 0, SetTool eraser, NextPage]) = 1"
    "pages (example [?doc, ImageLoaded 0, SetTool eraser, NextPage])
       = [toDataURL [solid black], toDataURL [transparent]]"
    "canvas (example [?doc, ImageLoaded 0, SetTool eraser, NextPage]) = [transparent]"
    "canvas (example [?doc, ImageLoaded 0, NextPage]) = [solid white]"
    by code_simp+
  ultimately show ?thesis by simp
qed

end
